theory Spec2Isabelle
  imports Main
begin

section \<open>Bytes, errors and generators\<close>

text \<open>
  The lexer of \<^verbatim>\<open>response_lexer.pyx\<close> works on Python 2 byte strings. A byte string is
  a list of 8-bit characters; indexing it gives a one-byte string, modelled by the character
  itself. \<open>ord\<close> and \<open>chr\<close> convert between a byte and its code in \<open>0..255\<close>.
\<close>

type_synonym bytes = "char list"

definition ord :: "char \<Rightarrow> nat" where
  "ord c = of_char c"

definition chr :: "nat \<Rightarrow> char" where
  "chr n = char_of n"

text \<open>
  The exceptions the module can raise. \<open>ValueError\<close> carries its message,
  \<open>ProtocolError\<close> is what a failed \<open>assert_imap_protocol\<close> raises (with the optional
  message it was given), \<open>AttributeError\<close> is Python's error for reading an attribute of
  \<open>None\<close> (it carries the attribute's name).
\<close>

datatype error =
    ValueError string
  | ProtocolError "bytes option"
  | AttributeError string

text \<open>
  Modelled from the spec: \<open>assert_imap_protocol\<close> is imported from the module \<open>util\<close>,
  which is not part of the sources at hand. The spec describes its two uses as checks that
  fail with a protocol error when the condition is false and do nothing otherwise.
\<close>

definition assert_imap_protocol :: "bool \<Rightarrow> bytes option \<Rightarrow> error + unit" where
  "assert_imap_protocol condition message =
     (if condition then Inr () else Inl (ProtocolError message))"

text \<open>The message \<^verbatim>\<open>"No closing '%s'" % c\<close> of the two \<open>ValueError\<close>s.\<close>

definition no_closing :: "char \<Rightarrow> string" where
  "no_closing c = ''No closing '' @ [CHR 0x27, c, CHR 0x27]"

text \<open>
  A generator that yields byte tokens and then either stops or raises is the list of the
  tokens it yields together with the error that ends it, if any.
\<close>

type_synonym token_stream = "bytes list \<times> error option"

section \<open>Byte classification\<close>

definition CTRL_CHARS :: "nat set" where
  "CTRL_CHARS = set [0..<32]"

definition ALL_CHARS :: "nat set" where
  "ALL_CHARS = set [0..<256]"

definition SPECIALS :: "nat set" where
  \<open>SPECIALS = set (map ord '' ()%"['')\<close>

definition NON_SPECIALS :: "nat set" where
  "NON_SPECIALS = ALL_CHARS - SPECIALS - CTRL_CHARS"

definition WHITESPACE :: "nat set" where
  "WHITESPACE = set (map ord [CHR '' '', CHR 0x09, CHR 0x0D, CHR 0x0A])"

text \<open>
  The table-driven reader keeps the code of a byte in C variables of type \<open>char\<close>
  (\<^verbatim>\<open>cdef char o, oo\<close> and the constants such as \<^verbatim>\<open>cdef char BACKSLASH\<close>). Plain \<open>char\<close> is
  taken as a signed 8-bit integer, as it is with the usual compilers on x86 and x86-64:
  the result of \<open>ord\<close>, a number in \<open>0..255\<close>, wraps into \<open>-128..127\<close>.
\<close>

definition to_char :: "nat \<Rightarrow> int" where
  "to_char n = (if n mod 256 < 128 then int (n mod 256) else int (n mod 256) - 256)"

definition BACKSLASH :: int where
  "BACKSLASH = to_char (ord (CHR 0x5C))"

definition OPEN_SQUARE :: int where
  "OPEN_SQUARE = to_char (ord (CHR ''[''))"

definition CLOSE_SQUARE :: int where
  "CLOSE_SQUARE = to_char (ord (CHR '']''))"

definition DOUBLE_QUOTE :: int where
  "DOUBLE_QUOTE = to_char (ord (CHR 0x22))"

definition BACKSLASH_CHR :: char where
  "BACKSLASH_CHR = CHR 0x5C"

definition OPEN_SQUARE_CHR :: char where
  "OPEN_SQUARE_CHR = CHR ''[''"

definition CLOSE_SQUARE_CHR :: char where
  "CLOSE_SQUARE_CHR = CHR '']''"

definition DOUBLE_QUOTE_CHR :: char where
  "DOUBLE_QUOTE_CHR = CHR 0x22"

text \<open>The sets of one-byte strings used by the set-membership implementation.\<close>

definition whitespace :: "char set" where
  "whitespace = chr ` WHITESPACE"

definition wordchars :: "char set" where
  "wordchars = chr ` NON_SPECIALS"

text \<open>
  The tables used by the table-driven implementation: \<open>_WS\<close> and \<open>_WC\<close> are lists of 256
  flags, copied into the C arrays \<open>WS\<close> and \<open>WC\<close>. \<open>WS\<close> and \<open>WC\<close> below are the reads at
  an index in \<open>0..255\<close>, as in \<^verbatim>\<open>WS[ord(src_text[ptr])]\<close>.
\<close>

definition WS_list :: "nat list" where
  "WS_list = map (\<lambda>i. if i \<in> WHITESPACE then 1 else 0) [0..<256]"

definition WC_list :: "nat list" where
  "WC_list = map (\<lambda>i. if i \<in> NON_SPECIALS then 1 else 0) [0..<256]"

definition WS :: "nat \<Rightarrow> bool" where
  "WS i = (WS_list ! i \<noteq> 0)"

definition WC :: "nat \<Rightarrow> bool" where
  "WC i = (WC_list ! i \<noteq> 0)"

text \<open>
  The scan loop reads the tables at the \<open>char\<close> variable \<open>o\<close> (\<^verbatim>\<open>WC[o]\<close>, \<^verbatim>\<open>WS[o]\<close>). For a
  byte of \<open>0x80\<close> or more \<open>o\<close> is negative and the read falls in front of the table. C does
  not say what is found there; \<open>c_memory\<close> stands for it: what such a read of either table
  returns, as a truth value. The table-driven reader takes it as a parameter.
\<close>

record c_memory =
  WS_outside :: "int \<Rightarrow> bool"
  WC_outside :: "int \<Rightarrow> bool"

definition WS_char :: "c_memory \<Rightarrow> int \<Rightarrow> bool" where
  "WS_char mem i = (if 0 \<le> i \<and> i < 256 then WS (nat i) else WS_outside mem i)"

definition WC_char :: "c_memory \<Rightarrow> int \<Rightarrow> bool" where
  "WC_char mem i = (if 0 \<le> i \<and> i < 256 then WC (nat i) else WC_outside mem i)"

section \<open>Byte string operations\<close>

text \<open>\<open>src_text[i:j]\<close> for indices that are not negative.\<close>

definition slice :: "bytes \<Rightarrow> nat \<Rightarrow> nat \<Rightarrow> bytes" where
  "slice s i j = take (j - i) (drop i s)"

text \<open>\<open>src_text.find(c, start)\<close> for a one-byte \<open>c\<close>: the first index from \<open>start\<close> on
  that holds \<open>c\<close>, or \<open>-1\<close>.\<close>

function bytes_find :: "bytes \<Rightarrow> char \<Rightarrow> nat \<Rightarrow> int" where
  "bytes_find s c start =
     (if start < length s
      then (if s ! start = c then int start else bytes_find s c (start + 1))
      else - 1)"
  by pat_completeness auto
termination
  by (relation "measure (\<lambda>(s, c, start). length s - start)") auto

declare bytes_find.simps [simp del]

text \<open>\<open>text.endswith(suffix)\<close>.\<close>

definition endswith :: "bytes \<Rightarrow> bytes \<Rightarrow> bool" where
  "endswith s suf = (length suf \<le> length s \<and> drop (length s - length suf) s = suf)"

text \<open>
  \<open>token.append(v)\<close> for a C integer \<open>v\<close>: a value outside \<open>0..255\<close> raises \<open>ValueError\<close>.
\<close>

definition bytearray_append :: "bytes \<Rightarrow> int \<Rightarrow> error + bytes" where
  "bytearray_append token v =
     (if 0 \<le> v \<and> v < 256 then Inr (token @ [chr (nat v)])
      else Inl (ValueError ''byte must be in range(0, 256)''))"

section \<open>The table-driven token reader\<close>

text \<open>The loop that skips whitespace: \<^verbatim>\<open>while ptr < src_len and WS[ord(src_text[ptr])]\<close>.\<close>

function skip_ws :: "bytes \<Rightarrow> nat \<Rightarrow> nat" where
  "skip_ws src_text ptr =
     (if ptr < length src_text \<and> WS (ord (src_text ! ptr))
      then skip_ws src_text (ptr + 1)
      else ptr)"
  by pat_completeness auto
termination
  by (relation "measure (\<lambda>(src_text, ptr). length src_text - ptr)") auto

declare skip_ws.simps [simp del]

text \<open>
  The loop of the quoted-string mode. It is entered with the token holding the opening
  quote and \<open>ptr\<close> behind it, and returns the token and the cursor at its \<open>break\<close>, or the
  error it raises. A backslash that does not start an escape falls through to the
  common \<open>token.append(o)\<close>; that call raises when \<open>o\<close> is negative.
\<close>

function quote_loop :: "bytes \<Rightarrow> bytes \<Rightarrow> nat \<Rightarrow> error + (bytes \<times> nat)" where
  "quote_loop src_text token ptr =
     (if ptr < length src_text then
        (let oc = to_char (ord (src_text ! ptr)) in
         if oc = BACKSLASH \<and> ptr + 1 \<ge> length src_text
           then Inl (ValueError (no_closing DOUBLE_QUOTE_CHR))
         else if oc = BACKSLASH \<and>
                 (let oo = to_char (ord (src_text ! (ptr + 1)))
                  in oo = BACKSLASH \<or> oo = DOUBLE_QUOTE)
           then (case bytearray_append token (to_char (ord (src_text ! (ptr + 1)))) of
                   Inl e \<Rightarrow> Inl e
                 | Inr token' \<Rightarrow> quote_loop src_text token' (ptr + 2))
         else (case bytearray_append token oc of
                 Inl e \<Rightarrow> Inl e
               | Inr token' \<Rightarrow>
                   if oc = DOUBLE_QUOTE then Inr (token', ptr + 1)
                   else quote_loop src_text token' (ptr + 1)))
      else Inl (ValueError (no_closing DOUBLE_QUOTE_CHR)))"
  by pat_completeness auto
termination
  by (relation "measure (\<lambda>(src_text, token, ptr). length src_text - ptr)") auto

declare quote_loop.simps [simp del]

lemma bytes_find_range:
  "bytes_find s c start = - 1 \<or> (int start \<le> bytes_find s c start \<and> bytes_find s c start < int (length s))"
proof (induction s c start rule: bytes_find.induct)
  case (1 s c start)
  show ?case
  proof (cases "start < length s")
    case True
    then show ?thesis
      using "1.IH" bytes_find.simps [of s c start] by (cases "s ! start = c") auto
  next
    case False
    then show ?thesis using bytes_find.simps [of s c start] by simp
  qed
qed

text \<open>
  One run of the scan loop (\<^verbatim>\<open>while ptr < src_len\<close> with its \<open>else\<close>), from a pending
  region \<open>[fr, to)\<close> and a cursor: the tokens it yields, and the error it raises or the
  cursor with which it hands control back to the outer loop.
\<close>

function scan_loop ::
  "c_memory \<Rightarrow> bytes \<Rightarrow> nat \<Rightarrow> nat \<Rightarrow> nat \<Rightarrow> bytes list \<times> (error + nat)" where
  "scan_loop mem src_text fr to ptr =
     (if ptr < length src_text then
        (let nextchar = src_text ! ptr; oc = to_char (ord nextchar) in
         if WC_char mem oc then scan_loop mem src_text fr (to + 1) (ptr + 1)
         else if oc = OPEN_SQUARE then
           (let ind = bytes_find src_text CLOSE_SQUARE_CHR (ptr + 1) in
            if ind = - 1 then ([], Inl (ValueError (no_closing CLOSE_SQUARE_CHR)))
            else scan_loop mem src_text fr (nat (ind + 1)) (nat (ind + 1)))
         else if WS_char mem oc then ([slice src_text fr to], Inr (ptr + 1))
         else if oc = DOUBLE_QUOTE then
           (if to > fr then ([], Inl (ValueError ''''))
            else (case bytearray_append [] oc of
                    Inl e \<Rightarrow> ([], Inl e)
                  | Inr token \<Rightarrow>
                      (case quote_loop src_text token (ptr + 1) of
                         Inl e \<Rightarrow> ([], Inl e)
                       | Inr (token', ptr') \<Rightarrow> ([token'], Inr ptr'))))
         else ((if to > fr then [slice src_text fr to] else []) @ [[nextchar]], Inr (ptr + 1)))
      else ((if to > fr then [slice src_text fr to] else []), Inr ptr))"
  by pat_completeness auto
termination
proof (relation "measure (\<lambda>(mem, src_text, fr, to, ptr). length src_text - ptr)")
  show "wf (measure (\<lambda>(mem, src_text, fr, to, ptr). length src_text - ptr))" by simp
next
  fix mem :: c_memory and src_text :: bytes and fr to ptr :: nat and x xa
  assume "ptr < length src_text"
  then show "((mem, src_text, fr, to + 1, ptr + 1), mem, src_text, fr, to, ptr)
       \<in> measure (\<lambda>(mem, src_text, fr, to, ptr). length src_text - ptr)" by simp
next
  fix mem :: c_memory and src_text :: bytes and fr to ptr :: nat and x xa xb
  assume "ptr < length src_text"
    and "xb = bytes_find src_text CLOSE_SQUARE_CHR (ptr + 1)" and "xb \<noteq> - 1"
  then show "((mem, src_text, fr, nat (xb + 1), nat (xb + 1)), mem, src_text, fr, to, ptr)
       \<in> measure (\<lambda>(mem, src_text, fr, to, ptr). length src_text - ptr)"
    using bytes_find_range [of src_text CLOSE_SQUARE_CHR "ptr + 1"] by auto
qed

declare scan_loop.simps [simp del]

section \<open>Facts about the byte classes\<close>

lemma ord_less_256: "ord c < 256"
  by (simp add: ord_def)

lemma chr_ord: "chr (ord c) = c"
  by (simp add: chr_def ord_def)

lemma ord_eq_iff: "ord c = ord d \<longleftrightarrow> c = d"
  by (simp add: ord_def)

lemma WHITESPACE_ord:
  "ord c \<in> WHITESPACE \<longleftrightarrow> c = CHR '' '' \<or> c = CHR 0x09 \<or> c = CHR 0x0D \<or> c = CHR 0x0A"
  by (auto simp: WHITESPACE_def ord_eq_iff)

lemma NON_SPECIALS_ord:
  \<open>ord c \<in> NON_SPECIALS \<longleftrightarrow>
     32 \<le> ord c \<and> c \<noteq> CHR '' '' \<and> c \<noteq> CHR ''('' \<and> c \<noteq> CHR '')'' \<and> c \<noteq> CHR ''%'' \<and>
     c \<noteq> CHR 0x22 \<and> c \<noteq> CHR ''[''\<close>
  using ord_less_256 [of c]
  by (auto simp: NON_SPECIALS_def ALL_CHARS_def SPECIALS_def CTRL_CHARS_def ord_eq_iff)

lemma WS_ord:
  "WS (ord c) \<longleftrightarrow> c = CHR '' '' \<or> c = CHR 0x09 \<or> c = CHR 0x0D \<or> c = CHR 0x0A"
  using ord_less_256 [of c] by (simp add: WS_def WS_list_def WHITESPACE_ord)

lemma WC_ord:
  \<open>WC (ord c) \<longleftrightarrow>
     (32::nat) \<le> of_char c \<and> c \<noteq> CHR '' '' \<and> c \<noteq> CHR ''('' \<and> c \<noteq> CHR '')'' \<and> c \<noteq> CHR ''%'' \<and>
     c \<noteq> CHR 0x22 \<and> c \<noteq> CHR ''[''\<close>
  using ord_less_256 [of c] by (simp add: WC_def WC_list_def NON_SPECIALS_ord) (simp add: ord_def)

lemma in_chr_image:
  assumes "S \<subseteq> {0..<256}"
  shows "c \<in> chr ` S \<longleftrightarrow> ord c \<in> S"
proof
  assume "c \<in> chr ` S"
  then obtain n where n: "n \<in> S" "c = chr n" by auto
  then have "n < 256" using assms by auto
  then have "ord c = n" using n by (simp add: chr_def ord_def)
  then show "ord c \<in> S" using n by simp
next
  assume "ord c \<in> S"
  then have "chr (ord c) \<in> chr ` S" by (rule imageI)
  then show "c \<in> chr ` S" by (simp add: chr_ord)
qed

lemma whitespace_iff: "c \<in> whitespace \<longleftrightarrow> WS (ord c)"
proof -
  have "WHITESPACE \<subseteq> {0..<256}" by (simp add: WHITESPACE_def ord_def)
  then show ?thesis by (simp add: whitespace_def in_chr_image WS_ord WHITESPACE_ord)
qed

lemma wordchars_iff: "c \<in> wordchars \<longleftrightarrow> WC (ord c)"
proof -
  have "NON_SPECIALS \<subseteq> {0..<256}" by (auto simp: NON_SPECIALS_def ALL_CHARS_def)
  then show ?thesis by (simp add: wordchars_def in_chr_image WC_ord NON_SPECIALS_ord) (simp add: ord_def)
qed

lemma to_char_ord:
  "to_char (ord c) = (if ord c < 128 then int (ord c) else int (ord c) - 256)"
  using ord_less_256 [of c] by (simp add: to_char_def)

lemma to_char_eq_iff: "to_char (ord c) = to_char (ord d) \<longleftrightarrow> c = d"
proof
  assume "to_char (ord c) = to_char (ord d)"
  then have "ord c = ord d"
    using ord_less_256 [of c] ord_less_256 [of d]
    by (auto simp: to_char_ord split: if_splits)
  then show "c = d" by (simp add: ord_eq_iff)
qed simp

lemma ord_consts:
  "to_char (ord c) = BACKSLASH \<longleftrightarrow> c = CHR 0x5C"
  "to_char (ord c) = OPEN_SQUARE \<longleftrightarrow> c = CHR ''[''"
  "to_char (ord c) = CLOSE_SQUARE \<longleftrightarrow> c = CHR '']''"
  "to_char (ord c) = DOUBLE_QUOTE \<longleftrightarrow> c = CHR 0x22"
  by (simp_all add: BACKSLASH_def OPEN_SQUARE_def CLOSE_SQUARE_def DOUBLE_QUOTE_def
        to_char_eq_iff)

lemmas chr_consts =
  BACKSLASH_CHR_def OPEN_SQUARE_CHR_def CLOSE_SQUARE_CHR_def DOUBLE_QUOTE_CHR_def

lemma ord_special_low:
  "ord BACKSLASH_CHR < 128" "ord DOUBLE_QUOTE_CHR < 128" "ord OPEN_SQUARE_CHR < 128"
  "ord CLOSE_SQUARE_CHR < 128"
  by (simp_all add: chr_consts ord_def)

lemma bytearray_append_char:
  "bytearray_append token (to_char (ord c)) =
     (if ord c < 128 then Inr (token @ [c])
      else Inl (ValueError ''byte must be in range(0, 256)''))"
  using ord_less_256 [of c] by (simp add: bytearray_append_def to_char_ord chr_ord)

lemma WC_char_ord:
  "WC_char mem (to_char (ord c)) =
     (if ord c < 128 then WC (ord c) else WC_outside mem (int (ord c) - 256))"
  using ord_less_256 [of c] by (simp add: WC_char_def to_char_ord)

lemma WS_char_ord:
  "WS_char mem (to_char (ord c)) =
     (if ord c < 128 then WS (ord c) else WS_outside mem (int (ord c) - 256))"
  using ord_less_256 [of c] by (simp add: WS_char_def to_char_ord)

text \<open>
  Induction rules that follow the two loops, with the bindings of \<open>let\<close> resolved.
\<close>

lemma skip_ws_ge: "ptr \<le> skip_ws s ptr"
proof (induction s ptr rule: skip_ws.induct)
  case (1 src_text ptr)
  then show ?case
    by (cases "ptr < length src_text \<and> WS (ord (src_text ! ptr))")
       (auto simp: skip_ws.simps [of src_text ptr])
qed

lemma quote_loop_induct [case_names step]:
  fixes P :: "bytes \<Rightarrow> bytes \<Rightarrow> nat \<Rightarrow> bool"
  assumes "\<And>s token ptr.
     (ptr < length s \<Longrightarrow> ptr + 1 < length s \<Longrightarrow> s ! ptr = BACKSLASH_CHR \<Longrightarrow>
        s ! (ptr + 1) = BACKSLASH_CHR \<or> s ! (ptr + 1) = DOUBLE_QUOTE_CHR \<Longrightarrow>
        P s (token @ [s ! (ptr + 1)]) (ptr + 2)) \<Longrightarrow>
     (ptr < length s \<Longrightarrow> ord (s ! ptr) < 128 \<Longrightarrow> s ! ptr \<noteq> DOUBLE_QUOTE_CHR \<Longrightarrow>
        \<not> (s ! ptr = BACKSLASH_CHR \<and> length s \<le> ptr + 1) \<Longrightarrow>
        \<not> (s ! ptr = BACKSLASH_CHR \<and>
           (s ! (ptr + 1) = BACKSLASH_CHR \<or> s ! (ptr + 1) = DOUBLE_QUOTE_CHR)) \<Longrightarrow>
        P s (token @ [s ! ptr]) (ptr + 1)) \<Longrightarrow>
     P s token ptr"
  shows "P s token ptr"
proof (induction s token ptr rule: quote_loop.induct)
  case (1 src_text token ptr)
  show ?case
  proof (rule assms)
    assume a: "ptr < length src_text" "ptr + 1 < length src_text"
      "src_text ! ptr = BACKSLASH_CHR"
      "src_text ! (ptr + 1) = BACKSLASH_CHR \<or> src_text ! (ptr + 1) = DOUBLE_QUOTE_CHR"
    then have "bytearray_append token (to_char (ord (src_text ! (ptr + 1)))) =
        Inr (token @ [src_text ! (ptr + 1)])"
      using ord_special_low by (auto simp: bytearray_append_char)
    then show "P src_text (token @ [src_text ! (ptr + 1)]) (ptr + 2)"
      using a by (intro "1.IH"(1) [OF _ refl]) (auto simp: ord_consts chr_consts)
  next
    assume a: "ptr < length src_text" "ord (src_text ! ptr) < 128"
      "src_text ! ptr \<noteq> DOUBLE_QUOTE_CHR"
      "\<not> (src_text ! ptr = BACKSLASH_CHR \<and> length src_text \<le> ptr + 1)"
      "\<not> (src_text ! ptr = BACKSLASH_CHR \<and>
           (src_text ! (ptr + 1) = BACKSLASH_CHR \<or> src_text ! (ptr + 1) = DOUBLE_QUOTE_CHR))"
    then have "bytearray_append token (to_char (ord (src_text ! ptr))) =
        Inr (token @ [src_text ! ptr])"
      by (simp add: bytearray_append_char)
    then show "P src_text (token @ [src_text ! ptr]) (ptr + 1)"
      using a by (intro "1.IH"(2) [OF _ refl]) (auto simp: ord_consts chr_consts)
  qed
qed

lemma scan_loop_induct [case_names step]:
  fixes P :: "c_memory \<Rightarrow> bytes \<Rightarrow> nat \<Rightarrow> nat \<Rightarrow> nat \<Rightarrow> bool"
  assumes "\<And>mem s fr to ptr.
     (ptr < length s \<Longrightarrow> WC_char mem (to_char (ord (s ! ptr))) \<Longrightarrow>
        P mem s fr (to + 1) (ptr + 1)) \<Longrightarrow>
     (ptr < length s \<Longrightarrow> \<not> WC_char mem (to_char (ord (s ! ptr))) \<Longrightarrow>
        s ! ptr = OPEN_SQUARE_CHR \<Longrightarrow>
        bytes_find s CLOSE_SQUARE_CHR (ptr + 1) \<noteq> - 1 \<Longrightarrow>
        P mem s fr (nat (bytes_find s CLOSE_SQUARE_CHR (ptr + 1) + 1))
               (nat (bytes_find s CLOSE_SQUARE_CHR (ptr + 1) + 1))) \<Longrightarrow>
     P mem s fr to ptr"
  shows "P mem s fr to ptr"
proof (induction mem s fr to ptr rule: scan_loop.induct)
  case (1 mem src_text fr to ptr)
  show ?case
  proof (rule assms)
    assume "ptr < length src_text" "WC_char mem (to_char (ord (src_text ! ptr)))"
    then show "P mem src_text fr (to + 1) (ptr + 1)"
      by (intro "1.IH"(1) [OF _ refl refl]) auto
  next
    assume "ptr < length src_text" "\<not> WC_char mem (to_char (ord (src_text ! ptr)))"
      "src_text ! ptr = OPEN_SQUARE_CHR"
      "bytes_find src_text CLOSE_SQUARE_CHR (ptr + 1) \<noteq> - 1"
    then show "P mem src_text fr (nat (bytes_find src_text CLOSE_SQUARE_CHR (ptr + 1) + 1))
               (nat (bytes_find src_text CLOSE_SQUARE_CHR (ptr + 1) + 1))"
      by (intro "1.IH"(2) [OF _ refl refl _ _ refl]) (auto simp: ord_consts chr_consts)
  qed
qed

lemma quote_loop_ptr: "quote_loop s tok ptr = Inr (t, p) \<Longrightarrow> ptr < p"
proof (induction s tok ptr rule: quote_loop.induct)
  case (1 s token ptr)
  show ?case using "1.prems" "1.IH" [OF _ refl]
    by (auto simp: quote_loop.simps [of s token ptr] Let_def split: if_splits sum.splits)
qed

lemma scan_loop_ptr:
  "scan_loop mem s fr to ptr = (toks, Inr p) \<Longrightarrow> ptr \<le> p \<and> (ptr < length s \<longrightarrow> ptr < p)"
proof (induction mem s fr to ptr rule: scan_loop_induct)
  case (step mem s fr to ptr)
  show ?case
    using step.prems step.IH bytes_find_range [of s CLOSE_SQUARE_CHR "ptr + 1"]
    by (auto simp: scan_loop.simps [of mem s fr to ptr] Let_def ord_consts chr_consts
             split: if_splits sum.splits prod.splits dest: quote_loop_ptr)
qed

text \<open>
  The outer loop \<^verbatim>\<open>while ptr < src_len\<close>: skip whitespace, start an empty pending region at
  the cursor, run the scan loop, and go round again from where it stopped. The result is
  everything the generator yields from cursor \<open>ptr\<close> on, and the error that ends it, if any.
\<close>

function read_token_stream_from :: "c_memory \<Rightarrow> bytes \<Rightarrow> nat \<Rightarrow> token_stream" where
  "read_token_stream_from mem src_text ptr =
     (if ptr < length src_text then
        (let ptr1 = skip_ws src_text ptr in
         case scan_loop mem src_text ptr1 ptr1 ptr1 of
           (toks, Inl e) \<Rightarrow> (toks, Some e)
         | (toks, Inr ptr2) \<Rightarrow>
             (let rest = read_token_stream_from mem src_text ptr2
              in (toks @ fst rest, snd rest)))
      else ([], None))"
  by pat_completeness auto
termination
proof (relation "measure (\<lambda>(mem, src_text, ptr). length src_text - ptr)")
  show "wf (measure (\<lambda>(mem, src_text, ptr). length src_text - ptr))" by simp
next
  fix mem :: c_memory and src_text :: bytes and ptr ptr1 ptr2 :: nat and r toks
    and res :: "error + nat"
  assume "ptr < length src_text" and "ptr1 = skip_ws src_text ptr"
    and "(toks, res) = scan_loop mem src_text ptr1 ptr1 ptr1" and "res = Inr ptr2"
  then have "ptr1 \<le> ptr2" "ptr1 < length src_text \<longrightarrow> ptr1 < ptr2" "ptr \<le> ptr1"
    using scan_loop_ptr [of mem src_text ptr1 ptr1 ptr1 toks ptr2] skip_ws_ge [of ptr src_text]
    by auto
  moreover have "ptr1 \<noteq> ptr \<or> ptr1 < length src_text"
    using \<open>ptr < length src_text\<close> by auto
  ultimately show "((mem, src_text, ptr2), mem, src_text, ptr)
      \<in> measure (\<lambda>(mem, src_text, ptr). length src_text - ptr)"
    using \<open>ptr < length src_text\<close> by auto
qed

declare read_token_stream_from.simps [simp del]

definition read_token_stream :: "c_memory \<Rightarrow> bytes \<Rightarrow> token_stream" where
  "read_token_stream mem src_text = read_token_stream_from mem src_text 0"

section \<open>The set-membership token reader\<close>

text \<open>
  The second \<open>read_token_stream\<close> of the source tests membership in the sets
  \<open>whitespace\<close> and \<open>wordchars\<close> and collects the pending token in a \<open>bytearray\<close>. Its
  functions carry the suffix \<open>2\<close>.
\<close>

function skip_ws2 :: "bytes \<Rightarrow> nat \<Rightarrow> nat" where
  "skip_ws2 src_text ptr =
     (if ptr < length src_text \<and> src_text ! ptr \<in> whitespace
      then skip_ws2 src_text (ptr + 1)
      else ptr)"
  by pat_completeness auto
termination
  by (relation "measure (\<lambda>(src_text, ptr). length src_text - ptr)") auto

declare skip_ws2.simps [simp del]

function quote_loop2 :: "bytes \<Rightarrow> bytes \<Rightarrow> nat \<Rightarrow> error + (bytes \<times> nat)" where
  "quote_loop2 src_text token ptr =
     (if ptr < length src_text then
        (let nextchar = src_text ! ptr in
         if nextchar = BACKSLASH_CHR \<and> ptr + 1 \<ge> length src_text
           then Inl (ValueError (no_closing DOUBLE_QUOTE_CHR))
         else if nextchar = BACKSLASH_CHR \<and>
                 (src_text ! (ptr + 1) = BACKSLASH_CHR \<or> src_text ! (ptr + 1) = DOUBLE_QUOTE_CHR)
           then quote_loop2 src_text (token @ [src_text ! (ptr + 1)]) (ptr + 2)
         else if nextchar = DOUBLE_QUOTE_CHR
           then Inr (token @ [nextchar], ptr + 1)
         else quote_loop2 src_text (token @ [nextchar]) (ptr + 1))
      else Inl (ValueError (no_closing DOUBLE_QUOTE_CHR)))"
  by pat_completeness auto
termination
  by (relation "measure (\<lambda>(src_text, token, ptr). length src_text - ptr)") auto

declare quote_loop2.simps [simp del]

function scan_loop2 :: "bytes \<Rightarrow> bytes \<Rightarrow> nat \<Rightarrow> bytes list \<times> (error + nat)" where
  "scan_loop2 src_text token ptr =
     (if ptr < length src_text then
        (let nextchar = src_text ! ptr in
         if nextchar \<in> wordchars then scan_loop2 src_text (token @ [nextchar]) (ptr + 1)
         else if nextchar = OPEN_SQUARE_CHR then
           (let ind = bytes_find src_text CLOSE_SQUARE_CHR (ptr + 1) in
            if ind = - 1 then ([], Inl (ValueError (no_closing CLOSE_SQUARE_CHR)))
            else scan_loop2 src_text
                   ((token @ [nextchar]) @ slice src_text (ptr + 1) (nat (ind + 1)))
                   (nat (ind + 1)))
         else if nextchar \<in> whitespace then ([token], Inr (ptr + 1))
         else if nextchar = DOUBLE_QUOTE_CHR then
           (case assert_imap_protocol (token = []) None of
              Inl e \<Rightarrow> ([], Inl e)
            | Inr _ \<Rightarrow>
                (case quote_loop2 src_text (token @ [nextchar]) (ptr + 1) of
                   Inl e \<Rightarrow> ([], Inl e)
                 | Inr (token', ptr') \<Rightarrow> ([token'], Inr ptr')))
         else ((if token \<noteq> [] then [token] else []) @ [[nextchar]], Inr (ptr + 1)))
      else ((if token \<noteq> [] then [token] else []), Inr ptr))"
  by pat_completeness auto
termination
proof (relation "measure (\<lambda>(src_text, token, ptr). length src_text - ptr)")
  show "wf (measure (\<lambda>(src_text, token, ptr). length src_text - ptr))" by simp
next
  fix src_text token :: bytes and ptr :: nat and x
  assume "ptr < length src_text"
  then show "((src_text, token @ [x], ptr + 1), src_text, token, ptr)
       \<in> measure (\<lambda>(src_text, token, ptr). length src_text - ptr)" by simp
next
  fix src_text token :: bytes and ptr :: nat and x xa
  assume "ptr < length src_text"
    and "xa = bytes_find src_text CLOSE_SQUARE_CHR (ptr + 1)" and "xa \<noteq> - 1"
  then show "((src_text, (token @ [x]) @ slice src_text (ptr + 1) (nat (xa + 1)), nat (xa + 1)),
              src_text, token, ptr)
       \<in> measure (\<lambda>(src_text, token, ptr). length src_text - ptr)"
    using bytes_find_range [of src_text CLOSE_SQUARE_CHR "ptr + 1"] by auto
qed

declare scan_loop2.simps [simp del]

lemma quote_loop2_induct [case_names step]:
  fixes P :: "bytes \<Rightarrow> bytes \<Rightarrow> nat \<Rightarrow> bool"
  assumes "\<And>s token ptr.
     (ptr < length s \<Longrightarrow> ptr + 1 < length s \<Longrightarrow> s ! ptr = BACKSLASH_CHR \<Longrightarrow>
        s ! (ptr + 1) = BACKSLASH_CHR \<or> s ! (ptr + 1) = DOUBLE_QUOTE_CHR \<Longrightarrow>
        P s (token @ [s ! (ptr + 1)]) (ptr + 2)) \<Longrightarrow>
     (ptr < length s \<Longrightarrow> s ! ptr \<noteq> DOUBLE_QUOTE_CHR \<Longrightarrow>
        \<not> (s ! ptr = BACKSLASH_CHR \<and> length s \<le> ptr + 1) \<Longrightarrow>
        \<not> (s ! ptr = BACKSLASH_CHR \<and>
           (s ! (ptr + 1) = BACKSLASH_CHR \<or> s ! (ptr + 1) = DOUBLE_QUOTE_CHR)) \<Longrightarrow>
        P s (token @ [s ! ptr]) (ptr + 1)) \<Longrightarrow>
     P s token ptr"
  shows "P s token ptr"
proof (induction s token ptr rule: quote_loop2.induct)
  case (1 src_text token ptr)
  show ?case
  proof (rule assms)
    assume "ptr < length src_text" "ptr + 1 < length src_text" "src_text ! ptr = BACKSLASH_CHR"
      "src_text ! (ptr + 1) = BACKSLASH_CHR \<or> src_text ! (ptr + 1) = DOUBLE_QUOTE_CHR"
    then show "P src_text (token @ [src_text ! (ptr + 1)]) (ptr + 2)"
      by (intro "1.IH"(1) [OF _ refl]) auto
  next
    assume "ptr < length src_text" "src_text ! ptr \<noteq> DOUBLE_QUOTE_CHR"
      "\<not> (src_text ! ptr = BACKSLASH_CHR \<and> length src_text \<le> ptr + 1)"
      "\<not> (src_text ! ptr = BACKSLASH_CHR \<and>
           (src_text ! (ptr + 1) = BACKSLASH_CHR \<or> src_text ! (ptr + 1) = DOUBLE_QUOTE_CHR))"
    then show "P src_text (token @ [src_text ! ptr]) (ptr + 1)"
      by (intro "1.IH"(2) [OF _ refl]) auto
  qed
qed

lemma scan_loop2_induct [case_names step]:
  fixes P :: "bytes \<Rightarrow> bytes \<Rightarrow> nat \<Rightarrow> bool"
  assumes "\<And>s token ptr.
     (ptr < length s \<Longrightarrow> s ! ptr \<in> wordchars \<Longrightarrow> P s (token @ [s ! ptr]) (ptr + 1)) \<Longrightarrow>
     (ptr < length s \<Longrightarrow> s ! ptr \<notin> wordchars \<Longrightarrow> s ! ptr = OPEN_SQUARE_CHR \<Longrightarrow>
        bytes_find s CLOSE_SQUARE_CHR (ptr + 1) \<noteq> - 1 \<Longrightarrow>
        P s ((token @ [s ! ptr]) @
               slice s (ptr + 1) (nat (bytes_find s CLOSE_SQUARE_CHR (ptr + 1) + 1)))
            (nat (bytes_find s CLOSE_SQUARE_CHR (ptr + 1) + 1))) \<Longrightarrow>
     P s token ptr"
  shows "P s token ptr"
proof (induction s token ptr rule: scan_loop2.induct)
  case (1 src_text token ptr)
  show ?case
  proof (rule assms)
    assume "ptr < length src_text" "src_text ! ptr \<in> wordchars"
    then show "P src_text (token @ [src_text ! ptr]) (ptr + 1)"
      by (intro "1.IH"(1) [OF _ refl]) auto
  next
    assume "ptr < length src_text" "src_text ! ptr \<notin> wordchars"
      "src_text ! ptr = OPEN_SQUARE_CHR"
      "bytes_find src_text CLOSE_SQUARE_CHR (ptr + 1) \<noteq> - 1"
    then show "P src_text ((token @ [src_text ! ptr]) @
               slice src_text (ptr + 1) (nat (bytes_find src_text CLOSE_SQUARE_CHR (ptr + 1) + 1)))
            (nat (bytes_find src_text CLOSE_SQUARE_CHR (ptr + 1) + 1))"
      by (intro "1.IH"(2) [OF _ refl _ _ refl]) auto
  qed
qed

lemma skip_ws2_ge: "ptr \<le> skip_ws2 s ptr"
proof (induction s ptr rule: skip_ws2.induct)
  case (1 src_text ptr)
  then show ?case
    by (cases "ptr < length src_text \<and> src_text ! ptr \<in> whitespace")
       (auto simp: skip_ws2.simps [of src_text ptr])
qed

lemma quote_loop2_ptr: "quote_loop2 s tok ptr = Inr (t, p) \<Longrightarrow> ptr < p"
proof (induction s tok ptr rule: quote_loop2_induct)
  case (step s token ptr)
  show ?case using step.prems step.IH
    by (auto simp: quote_loop2.simps [of s token ptr] Let_def split: if_splits)
qed

lemma scan_loop2_ptr:
  "scan_loop2 s token ptr = (toks, Inr p) \<Longrightarrow> ptr \<le> p \<and> (ptr < length s \<longrightarrow> ptr < p)"
proof (induction s token ptr rule: scan_loop2_induct)
  case (step s token ptr)
  show ?case
    using step.prems step.IH bytes_find_range [of s CLOSE_SQUARE_CHR "ptr + 1"]
    by (auto simp: scan_loop2.simps [of s token ptr] Let_def assert_imap_protocol_def
             split: if_splits sum.splits prod.splits dest: quote_loop2_ptr)
qed

function read_token_stream_from2 :: "bytes \<Rightarrow> nat \<Rightarrow> token_stream" where
  "read_token_stream_from2 src_text ptr =
     (if ptr < length src_text then
        (let ptr1 = skip_ws2 src_text ptr in
         case scan_loop2 src_text [] ptr1 of
           (toks, Inl e) \<Rightarrow> (toks, Some e)
         | (toks, Inr ptr2) \<Rightarrow>
             (let rest = read_token_stream_from2 src_text ptr2 in (toks @ fst rest, snd rest)))
      else ([], None))"
  by pat_completeness auto
termination
proof (relation "measure (\<lambda>(src_text, ptr). length src_text - ptr)")
  show "wf (measure (\<lambda>(src_text, ptr). length src_text - ptr))" by simp
next
  fix src_text :: bytes and ptr ptr1 ptr2 :: nat and r toks and res :: "error + nat"
  assume "ptr < length src_text" and "ptr1 = skip_ws2 src_text ptr"
    and "(toks, res) = scan_loop2 src_text [] ptr1" and "res = Inr ptr2"
  then have "ptr1 \<le> ptr2" "ptr1 < length src_text \<longrightarrow> ptr1 < ptr2" "ptr \<le> ptr1"
    using scan_loop2_ptr [of src_text "[]" ptr1 toks ptr2] skip_ws2_ge [of ptr src_text]
    by auto
  moreover have "ptr1 \<noteq> ptr \<or> ptr1 < length src_text"
    using \<open>ptr < length src_text\<close> by auto
  ultimately show "((src_text, ptr2), src_text, ptr) \<in> measure (\<lambda>(src_text, ptr). length src_text - ptr)"
    using \<open>ptr < length src_text\<close> by auto
qed

declare read_token_stream_from2.simps [simp del]

definition read_token_stream2 :: "bytes \<Rightarrow> token_stream" where
  "read_token_stream2 src_text = read_token_stream_from2 src_text 0"

section \<open>Records, the lexer and the token source\<close>

text \<open>
  A response record is either a plain byte string or a tuple of a text and its literal.
\<close>

datatype resp_record = Plain bytes | WithLiteral bytes bytes

text \<open>
  \<open>LiteralHandlingIter\<close> keeps the text to tokenize and the literal (\<open>None\<close> for a plain
  record). Its constructor can fail in \<open>assert_imap_protocol\<close>. The back reference to the
  lexer is never read and is left out.
\<close>

record LiteralHandlingIter =
  src_text :: bytes
  literal :: "bytes option"

definition LiteralHandlingIter_init :: "resp_record \<Rightarrow> error + LiteralHandlingIter" where
  "LiteralHandlingIter_init resp_record =
     (case resp_record of
        WithLiteral text lit \<Rightarrow>
          (case assert_imap_protocol (endswith text ''}'') (Some text) of
             Inl e \<Rightarrow> Inl e
           | Inr _ \<Rightarrow> Inr \<lparr>src_text = text, literal = Some lit\<rparr>)
      | Plain text \<Rightarrow> Inr \<lparr>src_text = text, literal = None\<rparr>)"

text \<open>
  The lexer holds the lazy sequence \<open>sources\<close> (here: the records not yet wrapped) and
  \<open>current_source\<close>, which starts as \<open>None\<close>.
\<close>

record Lexer =
  sources :: "resp_record list"
  current_source :: "LiteralHandlingIter option"

definition Lexer_init :: "resp_record list \<Rightarrow> Lexer" where
  "Lexer_init text = \<lparr>sources = text, current_source = None\<rparr>"

text \<open>
  The generator made by \<open>Lexer.__iter__\<close> is either finished or suspended with the rest of
  the running \<open>read_token_stream\<close>: the tokens it will still yield and the error that ends
  it, if any. A generator that has not started is one whose inner stream is empty.
\<close>

datatype lexer_iter = Running token_stream | Finished

datatype outcome = Yielded bytes | StopIteration | Raised error

text \<open>
  One \<open>next\<close> on the generator of \<open>Lexer.__iter__\<close>, for a given token reader: hand out the
  next token of the running stream; when that stream is used up take the next record,
  wrap it, make it current and start reading its text. An exception, of the wrapper or of
  the reader, finishes the generator.
\<close>

function Lexer_iter_next ::
  "(bytes \<Rightarrow> token_stream) \<Rightarrow> Lexer \<times> lexer_iter \<Rightarrow> outcome \<times> (Lexer \<times> lexer_iter)" where
  "Lexer_iter_next reader (l, g) =
     (case g of
        Finished \<Rightarrow> (StopIteration, (l, Finished))
      | Running (tok # toks, e) \<Rightarrow> (Yielded tok, (l, Running (toks, e)))
      | Running ([], Some e) \<Rightarrow> (Raised e, (l, Finished))
      | Running ([], None) \<Rightarrow>
          (case sources l of
             [] \<Rightarrow> (StopIteration, (l, Finished))
           | chunk # rest \<Rightarrow>
               (case LiteralHandlingIter_init chunk of
                  Inl e \<Rightarrow> (Raised e, (l\<lparr>sources := rest\<rparr>, Finished))
                | Inr source \<Rightarrow>
                    Lexer_iter_next reader
                      (l\<lparr>sources := rest, current_source := Some source\<rparr>,
                       Running (reader (src_text source))))))"
  by pat_completeness auto
termination
  by (relation "measure (\<lambda>(reader, l, g). length (sources l))") auto

declare Lexer_iter_next.simps [simp del]

text \<open>
  \<open>TokenSource\<close> owns the lexer and the generator \<open>iter(self.lex)\<close>. Iterating it pulls
  from that generator; \<open>current_literal\<close> reads \<open>self.lex.current_source.literal\<close>, which
  raises \<open>AttributeError\<close> while \<open>current_source\<close> is \<open>None\<close>.
\<close>

record TokenSource =
  lex :: Lexer
  src :: lexer_iter

definition TokenSource_init :: "resp_record list \<Rightarrow> TokenSource" where
  "TokenSource_init text = \<lparr>lex = Lexer_init text, src = Running ([], None)\<rparr>"

definition TokenSource_next ::
  "(bytes \<Rightarrow> token_stream) \<Rightarrow> TokenSource \<Rightarrow> outcome \<times> TokenSource" where
  "TokenSource_next reader ts =
     (case Lexer_iter_next reader (lex ts, src ts) of
        (out, (l, g)) \<Rightarrow> (out, \<lparr>lex = l, src = g\<rparr>))"

definition current_literal :: "TokenSource \<Rightarrow> error + bytes option" where
  "current_literal ts =
     (case current_source (lex ts) of
        None \<Rightarrow> Inl (AttributeError ''literal'')
      | Some source \<Rightarrow> Inr (literal source))"

text \<open>
  A consumer that calls \<open>next\<close> \<open>n\<close> times: what it receives, and the token source
  afterwards.
\<close>

primrec pulls ::
  "(bytes \<Rightarrow> token_stream) \<Rightarrow> nat \<Rightarrow> TokenSource \<Rightarrow> outcome list \<times> TokenSource" where
  "pulls reader 0 ts = ([], ts)"
| "pulls reader (Suc n) ts =
     (case TokenSource_next reader ts of
        (out, ts') \<Rightarrow> (case pulls reader n ts' of (outs, ts'') \<Rightarrow> (out # outs, ts'')))"

section \<open>Notions used in the statements\<close>

text \<open>
  The two readers raise different exceptions for a quote inside a pending token: the
  table-driven one raises \<open>ValueError('')\<close>, the set-membership one fails in
  \<open>assert_imap_protocol\<close>. \<open>as_protocol_error\<close> translates the first into the second;
  the definitions after it carry the translation through the results of the loops.
\<close>

definition as_protocol_error :: "error \<Rightarrow> error" where
  "as_protocol_error e = (if e = ValueError '''' then ProtocolError None else e)"

definition scan_result2 :: "bytes list \<times> (error + nat) \<Rightarrow> bytes list \<times> (error + nat)" where
  "scan_result2 r = (fst r, map_sum as_protocol_error id (snd r))"

definition stream_result2 :: "token_stream \<Rightarrow> token_stream" where
  "stream_result2 r = (fst r, map_option as_protocol_error (snd r))"

text \<open>
  Inside a quoted string that starts at \<open>ptr\<close>, a double quote at index \<open>i\<close> is unescaped
  when the run of backslashes that ends directly before it (and does not reach below
  \<open>ptr\<close>) has even length: the backslashes of the run then pair up among themselves.
\<close>

primrec backslashes_before :: "bytes \<Rightarrow> nat \<Rightarrow> nat \<Rightarrow> nat" where
  "backslashes_before s ptr 0 = 0"
| "backslashes_before s ptr (Suc j) =
     (if ptr \<le> j \<and> s ! j = BACKSLASH_CHR then Suc (backslashes_before s ptr j) else 0)"

definition unescaped_quote :: "bytes \<Rightarrow> nat \<Rightarrow> nat \<Rightarrow> bool" where
  "unescaped_quote s ptr i \<longleftrightarrow>
     ptr \<le> i \<and> i < length s \<and> s ! i = DOUBLE_QUOTE_CHR \<and> even (backslashes_before s ptr i)"

text \<open>
  A memory for concrete runs of the table-driven reader: every read in front of the \<open>WS\<close>
  table finds a word that is not zero, every read in front of the \<open>WC\<close> table finds zero.
\<close>

definition example_memory :: c_memory where
  "example_memory = \<lparr>WS_outside = (\<lambda>i. True), WC_outside = (\<lambda>i. False)\<rparr>"

section \<open>Evaluation on concrete inputs\<close>

lemma WC_char_eval:
  "WC_char mem (to_char (ord c)) =
     (if (of_char c :: nat) < 128 then WC (ord c)
      else WC_outside mem (int (of_char c :: nat) - 256))"
  using WC_char_ord [of mem c] by (simp add: ord_def)

lemma WS_char_eval:
  "WS_char mem (to_char (ord c)) =
     (if (of_char c :: nat) < 128 then WS (ord c)
      else WS_outside mem (int (of_char c :: nat) - 256))"
  using WS_char_ord [of mem c] by (simp add: ord_def)

lemma bytearray_append_eval:
  "bytearray_append token (to_char (ord c)) =
     (if (of_char c :: nat) < 128 then Inr (token @ [c])
      else Inl (ValueError ''byte must be in range(0, 256)''))"
  using bytearray_append_char [of token c] by (simp add: ord_def)

lemmas run_simps =
  read_token_stream_def read_token_stream_from.simps skip_ws.simps scan_loop.simps
  quote_loop.simps bytes_find.simps slice_def Let_def WS_ord WC_ord WS_char_eval WC_char_eval
  bytearray_append_eval ord_consts no_closing_def CLOSE_SQUARE_CHR_def DOUBLE_QUOTE_CHR_def

lemmas run2_simps =
  read_token_stream2_def read_token_stream_from2.simps skip_ws2.simps scan_loop2.simps
  quote_loop2.simps bytes_find.simps slice_def Let_def whitespace_iff wordchars_iff WS_ord WC_ord
  no_closing_def CLOSE_SQUARE_CHR_def DOUBLE_QUOTE_CHR_def OPEN_SQUARE_CHR_def BACKSLASH_CHR_def
  assert_imap_protocol_def

lemmas lexer_simps =
  TokenSource_init_def Lexer_init_def TokenSource_next_def Lexer_iter_next.simps
  LiteralHandlingIter_init_def assert_imap_protocol_def endswith_def current_literal_def

lemma pulls_numeral:
  "pulls reader (numeral k) ts =
     (case TokenSource_next reader ts of
        (out, ts') \<Rightarrow>
          (case pulls reader (pred_numeral k) ts' of (outs, ts'') \<Rightarrow> (out # outs, ts'')))"
  by (simp add: numeral_eq_Suc)

lemma read_a1_FETCH:
  \<open>read_token_stream mem ''a1 FETCH {5}'' = ([''a1'', ''FETCH'', ''{5}''], None)\<close>
  by (simp add: run_simps)

lemma read_b2_OK: \<open>read_token_stream mem ''b2 OK'' = ([''b2'', ''OK''], None)\<close>
  by (simp add: run_simps)

lemma read2_a1_FETCH:
  \<open>read_token_stream2 ''a1 FETCH {5}'' = ([''a1'', ''FETCH'', ''{5}''], None)\<close>
  by (simp add: run2_simps)

lemma read2_b2_OK: \<open>read_token_stream2 ''b2 OK'' = ([''b2'', ''OK''], None)\<close>
  by (simp add: run2_simps)

lemma read_quoted_high_byte: \<open>read_token_stream mem [CHR 0x22, CHR 0xC8, CHR 0x22] =
   ([], Some (ValueError ''byte must be in range(0, 256)''))\<close>
  by (simp add: run_simps)

lemma read2_quoted_high_byte: \<open>read_token_stream2 [CHR 0x22, CHR 0xC8, CHR 0x22] =
   ([[CHR 0x22, CHR 0xC8, CHR 0x22]], None)\<close>
  by (simp add: run2_simps)

section \<open>Steps of the quote loops\<close>

lemma chr_distinct:
  "BACKSLASH_CHR \<noteq> DOUBLE_QUOTE_CHR" "DOUBLE_QUOTE_CHR \<noteq> BACKSLASH_CHR"
  "OPEN_SQUARE_CHR \<noteq> DOUBLE_QUOTE_CHR" "DOUBLE_QUOTE_CHR \<noteq> OPEN_SQUARE_CHR"
  by (simp_all add: chr_consts)

lemma quote_loop_end:
  "length s \<le> ptr \<Longrightarrow> quote_loop s token ptr = Inl (ValueError (no_closing DOUBLE_QUOTE_CHR))"
  by (simp add: quote_loop.simps [of s token ptr])

lemma quote_loop_trailing_backslash:
  "ptr < length s \<Longrightarrow> s ! ptr = BACKSLASH_CHR \<Longrightarrow> length s \<le> ptr + 1 \<Longrightarrow>
   quote_loop s token ptr = Inl (ValueError (no_closing DOUBLE_QUOTE_CHR))"
  by (simp add: quote_loop.simps [of s token ptr] ord_consts chr_consts)

lemma quote_loop_escape:
  "ptr + 1 < length s \<Longrightarrow> s ! ptr = BACKSLASH_CHR \<Longrightarrow>
   s ! (ptr + 1) = BACKSLASH_CHR \<or> s ! (ptr + 1) = DOUBLE_QUOTE_CHR \<Longrightarrow>
   quote_loop s token ptr = quote_loop s (token @ [s ! (ptr + 1)]) (ptr + 2)"
  using ord_special_low chr_distinct
  by (auto simp: quote_loop.simps [of s token ptr] ord_consts bytearray_append_char
        chr_consts [symmetric])

lemma quote_loop_lone_backslash:
  "ptr + 1 < length s \<Longrightarrow> s ! ptr = BACKSLASH_CHR \<Longrightarrow>
   s ! (ptr + 1) \<noteq> BACKSLASH_CHR \<Longrightarrow> s ! (ptr + 1) \<noteq> DOUBLE_QUOTE_CHR \<Longrightarrow>
   quote_loop s token ptr = quote_loop s (token @ [BACKSLASH_CHR]) (ptr + 1)"
  using ord_special_low chr_distinct
  by (auto simp: quote_loop.simps [of s token ptr] ord_consts bytearray_append_char Let_def
        chr_consts [symmetric])

lemma quote_loop_close:
  "ptr < length s \<Longrightarrow> s ! ptr = DOUBLE_QUOTE_CHR \<Longrightarrow>
   quote_loop s token ptr = Inr (token @ [DOUBLE_QUOTE_CHR], ptr + 1)"
  using ord_special_low chr_distinct
  by (auto simp: quote_loop.simps [of s token ptr] ord_consts bytearray_append_char Let_def
        chr_consts [symmetric])

lemma quote_loop_other:
  "ptr < length s \<Longrightarrow> ord (s ! ptr) < 128 \<Longrightarrow> s ! ptr \<noteq> BACKSLASH_CHR \<Longrightarrow>
   s ! ptr \<noteq> DOUBLE_QUOTE_CHR \<Longrightarrow>
   quote_loop s token ptr = quote_loop s (token @ [s ! ptr]) (ptr + 1)"
  using chr_distinct
  by (auto simp: quote_loop.simps [of s token ptr] ord_consts bytearray_append_char Let_def
        chr_consts [symmetric])

lemma quote_loop_high:
  "ptr < length s \<Longrightarrow> \<not> ord (s ! ptr) < 128 \<Longrightarrow>
   quote_loop s token ptr = Inl (ValueError ''byte must be in range(0, 256)'')"
  using ord_special_low chr_distinct
  by (auto simp: quote_loop.simps [of s token ptr] ord_consts bytearray_append_char Let_def
        chr_consts [symmetric])

lemma quote_loop_error:
  "quote_loop s token ptr = Inl e \<Longrightarrow>
   e = ValueError (no_closing DOUBLE_QUOTE_CHR) \<or>
   e = ValueError ''byte must be in range(0, 256)''"
proof (induction s token ptr rule: quote_loop_induct)
  case (step s token ptr)
  show ?case using step.prems step.IH ord_special_low chr_distinct
    by (auto simp: quote_loop.simps [of s token ptr] Let_def ord_consts bytearray_append_char
          chr_consts [symmetric] split: if_splits)
qed

lemma quote_loop_token:
  "quote_loop s token ptr = Inr (tok, p) \<Longrightarrow> \<exists>body. tok = token @ body @ [DOUBLE_QUOTE_CHR]"
proof (induction s token ptr rule: quote_loop_induct)
  case (step s token ptr)
  show ?case using step.prems step.IH ord_special_low chr_distinct
    by (fastforce simp: quote_loop.simps [of s token ptr] Let_def ord_consts
          bytearray_append_char chr_consts [symmetric] split: if_splits)
qed

lemma quote_loop2_end:
  "length s \<le> ptr \<Longrightarrow> quote_loop2 s token ptr = Inl (ValueError (no_closing DOUBLE_QUOTE_CHR))"
  by (simp add: quote_loop2.simps [of s token ptr])

lemma quote_loop2_trailing_backslash:
  "ptr < length s \<Longrightarrow> s ! ptr = BACKSLASH_CHR \<Longrightarrow> length s \<le> ptr + 1 \<Longrightarrow>
   quote_loop2 s token ptr = Inl (ValueError (no_closing DOUBLE_QUOTE_CHR))"
  by (simp add: quote_loop2.simps [of s token ptr])

lemma quote_loop2_escape:
  "ptr + 1 < length s \<Longrightarrow> s ! ptr = BACKSLASH_CHR \<Longrightarrow>
   s ! (ptr + 1) = BACKSLASH_CHR \<or> s ! (ptr + 1) = DOUBLE_QUOTE_CHR \<Longrightarrow>
   quote_loop2 s token ptr = quote_loop2 s (token @ [s ! (ptr + 1)]) (ptr + 2)"
  by (auto simp: quote_loop2.simps [of s token ptr])

lemma quote_loop2_lone_backslash:
  "ptr + 1 < length s \<Longrightarrow> s ! ptr = BACKSLASH_CHR \<Longrightarrow>
   s ! (ptr + 1) \<noteq> BACKSLASH_CHR \<Longrightarrow> s ! (ptr + 1) \<noteq> DOUBLE_QUOTE_CHR \<Longrightarrow>
   quote_loop2 s token ptr = quote_loop2 s (token @ [BACKSLASH_CHR]) (ptr + 1)"
  by (auto simp: quote_loop2.simps [of s token ptr] chr_consts)

lemma quote_loop2_close:
  "ptr < length s \<Longrightarrow> s ! ptr = DOUBLE_QUOTE_CHR \<Longrightarrow>
   quote_loop2 s token ptr = Inr (token @ [DOUBLE_QUOTE_CHR], ptr + 1)"
  by (auto simp: quote_loop2.simps [of s token ptr] chr_consts)

lemma quote_loop2_other:
  "ptr < length s \<Longrightarrow> s ! ptr \<noteq> BACKSLASH_CHR \<Longrightarrow> s ! ptr \<noteq> DOUBLE_QUOTE_CHR \<Longrightarrow>
   quote_loop2 s token ptr = quote_loop2 s (token @ [s ! ptr]) (ptr + 1)"
  by (auto simp: quote_loop2.simps [of s token ptr])

lemma quote_loop2_error:
  "quote_loop2 s token ptr = Inl e \<Longrightarrow> e = ValueError (no_closing DOUBLE_QUOTE_CHR)"
proof (induction s token ptr rule: quote_loop2_induct)
  case (step s token ptr)
  show ?case using step.prems step.IH
    by (auto simp: quote_loop2.simps [of s token ptr] Let_def split: if_splits)
qed

lemma quote_loop2_token:
  "quote_loop2 s token ptr = Inr (tok, p) \<Longrightarrow> \<exists>body. tok = token @ body @ [DOUBLE_QUOTE_CHR]"
proof (induction s token ptr rule: quote_loop2_induct)
  case (step s token ptr)
  show ?case using step.prems step.IH
    by (fastforce simp: quote_loop2.simps [of s token ptr] Let_def split: if_splits)
qed

lemma quote_loop_eq:
  "\<forall>c \<in> set s. ord c < 128 \<Longrightarrow> quote_loop2 s token ptr = quote_loop s token ptr"
proof (induction s token ptr rule: quote_loop2_induct)
  case (step s token ptr)
  consider (at_end) "length s \<le> ptr"
    | (closing) "ptr < length s" "s ! ptr = DOUBLE_QUOTE_CHR"
    | (trailing) "ptr < length s" "s ! ptr = BACKSLASH_CHR" "length s \<le> ptr + 1"
    | (escape) "ptr + 1 < length s" "s ! ptr = BACKSLASH_CHR"
        "s ! (ptr + 1) = BACKSLASH_CHR \<or> s ! (ptr + 1) = DOUBLE_QUOTE_CHR"
    | (lone) "ptr + 1 < length s" "s ! ptr = BACKSLASH_CHR"
        "s ! (ptr + 1) \<noteq> BACKSLASH_CHR" "s ! (ptr + 1) \<noteq> DOUBLE_QUOTE_CHR"
    | (other) "ptr < length s" "s ! ptr \<noteq> BACKSLASH_CHR" "s ! ptr \<noteq> DOUBLE_QUOTE_CHR"
    by (metis Suc_eq_plus1 Suc_leI le_neq_implies_less not_le)
  then show ?case
  proof cases
    case at_end
    then show ?thesis by (simp add: quote_loop_end quote_loop2_end)
  next
    case closing
    then show ?thesis by (simp add: quote_loop_close quote_loop2_close)
  next
    case trailing
    then show ?thesis
      by (simp add: quote_loop_trailing_backslash quote_loop2_trailing_backslash)
  next
    case escape
    then show ?thesis using step.IH(1) step.prems
      by (simp add: quote_loop_escape quote_loop2_escape)
  next
    case lone
    have "BACKSLASH_CHR \<noteq> DOUBLE_QUOTE_CHR" by (simp add: chr_consts)
    then show ?thesis using lone step.IH(2) step.prems
      by (simp add: quote_loop_lone_backslash quote_loop2_lone_backslash)
  next
    case other
    then have "ord (s ! ptr) < 128" using step.prems by simp
    then show ?thesis using other step.IH(2) step.prems
      by (simp add: quote_loop_other quote_loop2_other)
  qed
qed

section \<open>Searching for a byte\<close>

lemma bytes_find_none:
  "bytes_find s c start = - 1 \<longleftrightarrow> (\<forall>j. start \<le> j \<and> j < length s \<longrightarrow> s ! j \<noteq> c)"
proof (induction s c start rule: bytes_find.induct)
  case (1 s c start)
  show ?case
  proof (cases "start < length s")
    case False
    then show ?thesis by (auto simp: bytes_find.simps [of s c start])
  next
    case True
    show ?thesis
    proof (cases "s ! start = c")
      case True
      then show ?thesis using \<open>start < length s\<close>
        by (auto simp: bytes_find.simps [of s c start])
    next
      case False
      have "start \<le> j \<longleftrightarrow> j = start \<or> start + 1 \<le> j" for j by auto
      then have "(\<forall>j. start \<le> j \<and> j < length s \<longrightarrow> s ! j \<noteq> c) \<longleftrightarrow>
            (\<forall>j. start + 1 \<le> j \<and> j < length s \<longrightarrow> s ! j \<noteq> c)"
        using False by auto
      then show ?thesis using False True "1.IH"
        by (simp add: bytes_find.simps [of s c start])
    qed
  qed
qed

lemma bytes_find_first:
  "start \<le> i \<Longrightarrow> i < length s \<Longrightarrow> s ! i = c \<Longrightarrow>
   (\<forall>j. start \<le> j \<and> j < i \<longrightarrow> s ! j \<noteq> c) \<Longrightarrow> bytes_find s c start = int i"
proof (induction s c start rule: bytes_find.induct)
  case (1 s c start)
  show ?case
  proof (cases "start = i")
    case True
    then show ?thesis using "1.prems" by (simp add: bytes_find.simps [of s c i])
  next
    case False
    then have "start < i" "s ! start \<noteq> c" "start < length s" using "1.prems" by auto
    then show ?thesis using "1.IH" "1.prems"
      by (simp add: bytes_find.simps [of s c start])
  qed
qed

lemma bytes_find_found:
  "bytes_find s c start = int i \<Longrightarrow>
   start \<le> i \<and> i < length s \<and> s ! i = c \<and> (\<forall>j. start \<le> j \<and> j < i \<longrightarrow> s ! j \<noteq> c)"
proof (induction s c start rule: bytes_find.induct)
  case (1 s c start)
  show ?case
  proof (cases "start < length s")
    case False
    then show ?thesis using "1.prems" by (simp add: bytes_find.simps [of s c start])
  next
    case True
    show ?thesis
    proof (cases "s ! start = c")
      case True
      then show ?thesis using \<open>start < length s\<close> "1.prems"
        by (auto simp: bytes_find.simps [of s c start])
    next
      case False
      then have "bytes_find s c (start + 1) = int i"
        using True "1.prems" by (simp add: bytes_find.simps [of s c start])
      then have IH: "start + 1 \<le> i \<and> i < length s \<and> s ! i = c \<and>
          (\<forall>j. start + 1 \<le> j \<and> j < i \<longrightarrow> s ! j \<noteq> c)"
        using "1.IH" True False by simp
      moreover have "start \<le> j \<longleftrightarrow> j = start \<or> start + 1 \<le> j" for j by auto
      ultimately show ?thesis using False by auto
    qed
  qed
qed

lemma slice_snoc:
  "fr \<le> ptr \<Longrightarrow> ptr < length s \<Longrightarrow> slice s fr (ptr + 1) = slice s fr ptr @ [s ! ptr]"
proof -
  assume a: "fr \<le> ptr" "ptr < length s"
  then have "take (Suc (ptr - fr)) (drop fr s) = take (ptr - fr) (drop fr s) @ [drop fr s ! (ptr - fr)]"
    by (intro take_Suc_conv_app_nth) simp
  then show ?thesis using a by (simp add: slice_def Suc_diff_le)
qed

lemma slice_append:
  "fr \<le> m \<Longrightarrow> m \<le> n \<Longrightarrow> slice s fr n = slice s fr m @ slice s m n"
proof -
  assume a: "fr \<le> m" "m \<le> n"
  have "take ((m - fr) + (n - m)) (drop fr s) =
        take (m - fr) (drop fr s) @ take (n - m) (drop (m - fr) (drop fr s))"
    by (rule take_add)
  then show ?thesis using a by (simp add: slice_def)
qed

lemma slice_eq_Nil: "slice s fr to = [] \<longleftrightarrow> to \<le> fr \<or> length s \<le> fr"
  by (auto simp: slice_def)

lemma slice_all: "slice s 0 (length s) = s"
  by (simp add: slice_def)

lemma no_closing_neq_Nil: "no_closing c \<noteq> []"
  by (simp add: no_closing_def)

lemma in_set_slice:
  assumes "i \<le> length s"
  shows "c \<in> set (slice s p i) \<longleftrightarrow> (\<exists>j. p \<le> j \<and> j < i \<and> s ! j = c)"
proof
  assume "c \<in> set (slice s p i)"
  then obtain k where k: "k < length (slice s p i)" "slice s p i ! k = c"
    by (auto simp: in_set_conv_nth)
  then have "k < i - p" "p + k < length s" using assms by (auto simp: slice_def)
  then have "s ! (p + k) = c" using k by (simp add: slice_def)
  then show "\<exists>j. p \<le> j \<and> j < i \<and> s ! j = c"
    using \<open>k < i - p\<close> by (intro exI [of _ "p + k"]) auto
next
  assume "\<exists>j. p \<le> j \<and> j < i \<and> s ! j = c"
  then obtain j where j: "p \<le> j" "j < i" "s ! j = c" by blast
  then have "j - p < length (slice s p i)" "slice s p i ! (j - p) = c"
    using assms by (auto simp: slice_def)
  then show "c \<in> set (slice s p i)" by (metis nth_mem)
qed

lemma bytes_find_absent:
  "c \<notin> set (drop start s) \<Longrightarrow> bytes_find s c start = - 1"
proof -
  assume "c \<notin> set (drop start s)"
  then have "c \<notin> set (slice s start (length s))" by (simp add: slice_def)
  then show ?thesis using in_set_slice [of "length s" s c start] by (simp add: bytes_find_none)
qed

lemma bytes_find_at:
  "start \<le> i \<Longrightarrow> i < length s \<Longrightarrow> s ! i = c \<Longrightarrow> c \<notin> set (slice s start i) \<Longrightarrow>
   bytes_find s c start = int i"
  using in_set_slice [of i s c start] by (intro bytes_find_first) auto

section \<open>Steps of the scan loops\<close>

lemma WC_not_special:
  "\<not> WC (ord OPEN_SQUARE_CHR)" "\<not> WC (ord DOUBLE_QUOTE_CHR)"
  "\<not> WS (ord OPEN_SQUARE_CHR)" "\<not> WS (ord DOUBLE_QUOTE_CHR)"
  "WC (ord BACKSLASH_CHR)" "WC (ord CLOSE_SQUARE_CHR)"
  by (simp_all add: WC_ord WS_ord chr_consts)

lemma WS_not_WC: "WS (ord c) \<Longrightarrow> \<not> WC (ord c)"
  unfolding WS_ord WC_ord by (elim disjE) simp_all

lemma WS_not_bracket: "WS (ord c) \<Longrightarrow> c \<noteq> OPEN_SQUARE_CHR"
  using WC_not_special(3) by auto

lemma WS_not_quote: "WS (ord c) \<Longrightarrow> c \<noteq> DOUBLE_QUOTE_CHR"
  using WC_not_special(4) by auto

lemma table_special:
  "\<not> WC_char mem (to_char (ord OPEN_SQUARE_CHR))"
  "\<not> WC_char mem (to_char (ord DOUBLE_QUOTE_CHR))"
  "\<not> WS_char mem (to_char (ord OPEN_SQUARE_CHR))"
  "\<not> WS_char mem (to_char (ord DOUBLE_QUOTE_CHR))"
  using WC_not_special ord_special_low by (simp_all add: WC_char_ord WS_char_ord)

lemma scan_loop_end:
  "length s \<le> ptr \<Longrightarrow>
   scan_loop mem s fr to ptr = ((if fr < to then [slice s fr to] else []), Inr ptr)"
  by (simp add: scan_loop.simps [of mem s fr to ptr])

lemma scan_loop_wordchar:
  "ptr < length s \<Longrightarrow> WC_char mem (to_char (ord (s ! ptr))) \<Longrightarrow>
   scan_loop mem s fr to ptr = scan_loop mem s fr (to + 1) (ptr + 1)"
  by (simp add: scan_loop.simps [of mem s fr to ptr])

lemma scan_loop_bracket_fail:
  "ptr < length s \<Longrightarrow> s ! ptr = OPEN_SQUARE_CHR \<Longrightarrow>
   bytes_find s CLOSE_SQUARE_CHR (ptr + 1) = - 1 \<Longrightarrow>
   scan_loop mem s fr to ptr = ([], Inl (ValueError (no_closing CLOSE_SQUARE_CHR)))"
  using table_special(1) [of mem]
  by (simp add: scan_loop.simps [of mem s fr to ptr] ord_consts chr_consts)

lemma scan_loop_bracket:
  "ptr < length s \<Longrightarrow> s ! ptr = OPEN_SQUARE_CHR \<Longrightarrow>
   bytes_find s CLOSE_SQUARE_CHR (ptr + 1) = int i \<Longrightarrow>
   scan_loop mem s fr to ptr = scan_loop mem s fr (i + 1) (i + 1)"
  using table_special(1) [of mem]
  by (simp add: scan_loop.simps [of mem s fr to ptr] ord_consts chr_consts nat_add_distrib)

lemma scan_loop_ws:
  "ptr < length s \<Longrightarrow> \<not> WC_char mem (to_char (ord (s ! ptr))) \<Longrightarrow>
   s ! ptr \<noteq> OPEN_SQUARE_CHR \<Longrightarrow> WS_char mem (to_char (ord (s ! ptr))) \<Longrightarrow>
   scan_loop mem s fr to ptr = ([slice s fr to], Inr (ptr + 1))"
  by (simp add: scan_loop.simps [of mem s fr to ptr] ord_consts chr_consts)

lemma scan_loop_quote_pending:
  "ptr < length s \<Longrightarrow> s ! ptr = DOUBLE_QUOTE_CHR \<Longrightarrow> fr < to \<Longrightarrow>
   scan_loop mem s fr to ptr = ([], Inl (ValueError ''''))"
  using table_special(2,4) [of mem]
  by (simp add: scan_loop.simps [of mem s fr to ptr] ord_consts chr_consts)

lemma scan_loop_quote:
  "ptr < length s \<Longrightarrow> s ! ptr = DOUBLE_QUOTE_CHR \<Longrightarrow> to \<le> fr \<Longrightarrow>
   scan_loop mem s fr to ptr =
     (case quote_loop s [DOUBLE_QUOTE_CHR] (ptr + 1) of
        Inl e \<Rightarrow> ([], Inl e)
      | Inr (token, ptr') \<Rightarrow> ([token], Inr ptr'))"
  using table_special(2,4) [of mem] ord_special_low(2)
  by (simp add: scan_loop.simps [of mem s fr to ptr] ord_consts bytearray_append_char
        chr_consts)

lemma scan_loop_punct:
  "ptr < length s \<Longrightarrow> \<not> WC_char mem (to_char (ord (s ! ptr))) \<Longrightarrow>
   s ! ptr \<noteq> OPEN_SQUARE_CHR \<Longrightarrow> \<not> WS_char mem (to_char (ord (s ! ptr))) \<Longrightarrow>
   s ! ptr \<noteq> DOUBLE_QUOTE_CHR \<Longrightarrow>
   scan_loop mem s fr to ptr =
     ((if fr < to then [slice s fr to] else []) @ [[s ! ptr]], Inr (ptr + 1))"
  by (simp add: scan_loop.simps [of mem s fr to ptr] ord_consts chr_consts)

lemma scan_loop2_end:
  "length s \<le> ptr \<Longrightarrow>
   scan_loop2 s token ptr = ((if token \<noteq> [] then [token] else []), Inr ptr)"
  by (simp add: scan_loop2.simps [of s token ptr])

lemma scan_loop2_wordchar:
  "ptr < length s \<Longrightarrow> WC (ord (s ! ptr)) \<Longrightarrow>
   scan_loop2 s token ptr = scan_loop2 s (token @ [s ! ptr]) (ptr + 1)"
  by (simp add: scan_loop2.simps [of s token ptr] wordchars_iff)

lemma scan_loop2_bracket_fail:
  "ptr < length s \<Longrightarrow> s ! ptr = OPEN_SQUARE_CHR \<Longrightarrow>
   bytes_find s CLOSE_SQUARE_CHR (ptr + 1) = - 1 \<Longrightarrow>
   scan_loop2 s token ptr = ([], Inl (ValueError (no_closing CLOSE_SQUARE_CHR)))"
  using WC_not_special(1)
  by (simp add: scan_loop2.simps [of s token ptr] wordchars_iff)

lemma scan_loop2_bracket:
  "ptr < length s \<Longrightarrow> s ! ptr = OPEN_SQUARE_CHR \<Longrightarrow>
   bytes_find s CLOSE_SQUARE_CHR (ptr + 1) = int i \<Longrightarrow>
   scan_loop2 s token ptr = scan_loop2 s (token @ slice s ptr (i + 1)) (i + 1)"
proof -
  assume a: "ptr < length s" "s ! ptr = OPEN_SQUARE_CHR"
    "bytes_find s CLOSE_SQUARE_CHR (ptr + 1) = int i"
  then have "ptr + 1 \<le> i" using bytes_find_found by blast
  then have "slice s ptr (i + 1) = [s ! ptr] @ slice s (ptr + 1) (i + 1)"
    using slice_append [of ptr "ptr + 1" "i + 1" s] slice_snoc [of ptr ptr s] a(1)
    by (simp add: slice_def)
  then show ?thesis using a WC_not_special(1)
    by (simp add: scan_loop2.simps [of s token ptr] wordchars_iff nat_add_distrib)
qed

lemma scan_loop2_ws:
  "ptr < length s \<Longrightarrow> WS (ord (s ! ptr)) \<Longrightarrow>
   scan_loop2 s token ptr = ([token], Inr (ptr + 1))"
  using WS_not_WC [of "s ! ptr"] WS_not_bracket [of "s ! ptr"]
  by (simp add: scan_loop2.simps [of s token ptr] wordchars_iff whitespace_iff)

lemma scan_loop2_quote_pending:
  "ptr < length s \<Longrightarrow> s ! ptr = DOUBLE_QUOTE_CHR \<Longrightarrow> token \<noteq> [] \<Longrightarrow>
   scan_loop2 s token ptr = ([], Inl (ProtocolError None))"
  using WC_not_special(2,4)
  by (simp add: scan_loop2.simps [of s token ptr] wordchars_iff whitespace_iff
        assert_imap_protocol_def chr_consts)

lemma scan_loop2_quote:
  "ptr < length s \<Longrightarrow> s ! ptr = DOUBLE_QUOTE_CHR \<Longrightarrow>
   scan_loop2 s [] ptr =
     (case quote_loop2 s [DOUBLE_QUOTE_CHR] (ptr + 1) of
        Inl e \<Rightarrow> ([], Inl e)
      | Inr (token, ptr') \<Rightarrow> ([token], Inr ptr'))"
  using WC_not_special(2,4)
  by (simp add: scan_loop2.simps [of s "[]" ptr] wordchars_iff whitespace_iff
        assert_imap_protocol_def chr_consts)

lemma scan_loop2_punct:
  "ptr < length s \<Longrightarrow> \<not> WC (ord (s ! ptr)) \<Longrightarrow> s ! ptr \<noteq> OPEN_SQUARE_CHR \<Longrightarrow>
   \<not> WS (ord (s ! ptr)) \<Longrightarrow> s ! ptr \<noteq> DOUBLE_QUOTE_CHR \<Longrightarrow>
   scan_loop2 s token ptr =
     ((if token \<noteq> [] then [token] else []) @ [[s ! ptr]], Inr (ptr + 1))"
  by (simp add: scan_loop2.simps [of s token ptr] wordchars_iff whitespace_iff)

section \<open>The outer loops\<close>

lemma read_token_stream_from_unfold:
  "read_token_stream_from mem s ptr =
     (if ptr < length s then
        (case scan_loop mem s (skip_ws s ptr) (skip_ws s ptr) (skip_ws s ptr) of
           (toks, Inl e) \<Rightarrow> (toks, Some e)
         | (toks, Inr ptr2) \<Rightarrow>
             (toks @ fst (read_token_stream_from mem s ptr2),
              snd (read_token_stream_from mem s ptr2)))
      else ([], None))"
  by (simp add: read_token_stream_from.simps [of mem s ptr] Let_def)

lemma read_token_stream_from2_unfold:
  "read_token_stream_from2 s ptr =
     (if ptr < length s then
        (case scan_loop2 s [] (skip_ws2 s ptr) of
           (toks, Inl e) \<Rightarrow> (toks, Some e)
         | (toks, Inr ptr2) \<Rightarrow>
             (toks @ fst (read_token_stream_from2 s ptr2), snd (read_token_stream_from2 s ptr2)))
      else ([], None))"
  by (simp add: read_token_stream_from2.simps [of s ptr] Let_def)

lemma read_token_stream_from_induct [case_names step]:
  fixes P :: "c_memory \<Rightarrow> bytes \<Rightarrow> nat \<Rightarrow> bool"
  assumes "\<And>mem s ptr.
     (\<And>toks ptr2. ptr < length s \<Longrightarrow>
        scan_loop mem s (skip_ws s ptr) (skip_ws s ptr) (skip_ws s ptr) = (toks, Inr ptr2) \<Longrightarrow>
        P mem s ptr2) \<Longrightarrow> P mem s ptr"
  shows "P mem s ptr"
proof (induction mem s ptr rule: read_token_stream_from.induct)
  case (1 mem src_text ptr)
  show ?case
  proof (rule assms)
    fix toks ptr2
    assume "ptr < length src_text"
      and "scan_loop mem src_text (skip_ws src_text ptr) (skip_ws src_text ptr)
             (skip_ws src_text ptr) = (toks, Inr ptr2)"
    then show "P mem src_text ptr2"
      by (intro "1.IH" [OF _ refl _ refl]) auto
  qed
qed

lemma read_token_stream_from2_induct [case_names step]:
  fixes P :: "bytes \<Rightarrow> nat \<Rightarrow> bool"
  assumes "\<And>s ptr.
     (\<And>toks ptr2. ptr < length s \<Longrightarrow>
        scan_loop2 s [] (skip_ws2 s ptr) = (toks, Inr ptr2) \<Longrightarrow> P s ptr2) \<Longrightarrow> P s ptr"
  shows "P s ptr"
proof (induction s ptr rule: read_token_stream_from2.induct)
  case (1 src_text ptr)
  show ?case
  proof (rule assms)
    fix toks ptr2
    assume "ptr < length src_text"
      and "scan_loop2 src_text [] (skip_ws2 src_text ptr) = (toks, Inr ptr2)"
    then show "P src_text ptr2"
      by (intro "1.IH" [OF _ refl _ refl]) auto
  qed
qed

lemma read_token_stream_from_end:
  "length s \<le> ptr \<Longrightarrow> read_token_stream_from mem s ptr = ([], None)"
  by (simp add: read_token_stream_from_unfold [of mem s ptr])

lemma read_token_stream_from2_end:
  "length s \<le> ptr \<Longrightarrow> read_token_stream_from2 s ptr = ([], None)"
  by (simp add: read_token_stream_from2_unfold [of s ptr])

lemma skip_ws_eq: "skip_ws2 s ptr = skip_ws s ptr"
proof (induction s ptr rule: skip_ws.induct)
  case (1 s ptr)
  then show ?case
    by (simp add: skip_ws.simps [of s ptr] skip_ws2.simps [of s ptr] whitespace_iff)
qed

lemma skip_ws_le: "ptr \<le> length s \<Longrightarrow> skip_ws s ptr \<le> length s"
proof (induction s ptr rule: skip_ws.induct)
  case (1 s ptr)
  then show ?case by (simp add: skip_ws.simps [of s ptr])
qed

lemma skip_ws_stop: "skip_ws s ptr < length s \<Longrightarrow> \<not> WS (ord (s ! skip_ws s ptr))"
proof (induction s ptr rule: skip_ws.induct)
  case (1 s ptr)
  then show ?case
    by (cases "ptr < length s \<and> WS (ord (s ! ptr))") (auto simp: skip_ws.simps [of s ptr])
qed

lemma skip_ws_none: "ptr < length s \<Longrightarrow> \<not> WS (ord (s ! ptr)) \<Longrightarrow> skip_ws s ptr = ptr"
  by (simp add: skip_ws.simps [of s ptr])

section \<open>The two readers agree on 7-bit text\<close>

lemma scan_loop_eq:
  "\<forall>c \<in> set s. ord c < 128 \<Longrightarrow> to = ptr \<Longrightarrow> fr \<le> ptr \<Longrightarrow> ptr \<le> length s \<Longrightarrow>
   scan_loop2 s (slice s fr to) ptr = scan_result2 (scan_loop mem s fr to ptr)"
proof (induction mem s fr to ptr rule: scan_loop_induct)
  case (step mem s fr to ptr)
  note [simp] = \<open>to = ptr\<close>
  have nonempty: "slice s fr ptr = [] \<longleftrightarrow> \<not> fr < ptr"
    using step.prems by (auto simp: slice_eq_Nil)
  show ?case
  proof (cases "ptr < length s")
    case False
    then show ?thesis
      by (simp add: scan_loop_end scan_loop2_end nonempty scan_result2_def)
  next
    case inside: True
    then have low: "ord (s ! ptr) < 128" using step.prems(1) by simp
    then have tab: "WC_char mem (to_char (ord (s ! ptr))) = WC (ord (s ! ptr))"
      "WS_char mem (to_char (ord (s ! ptr))) = WS (ord (s ! ptr))"
      by (simp_all add: WC_char_ord WS_char_ord)
    consider (wc) "WC (ord (s ! ptr))"
      | (br) "\<not> WC (ord (s ! ptr))" "s ! ptr = OPEN_SQUARE_CHR"
      | (ws) "\<not> WC (ord (s ! ptr))" "s ! ptr \<noteq> OPEN_SQUARE_CHR" "WS (ord (s ! ptr))"
      | (dq) "\<not> WC (ord (s ! ptr))" "s ! ptr \<noteq> OPEN_SQUARE_CHR" "\<not> WS (ord (s ! ptr))"
             "s ! ptr = DOUBLE_QUOTE_CHR"
      | (pu) "\<not> WC (ord (s ! ptr))" "s ! ptr \<noteq> OPEN_SQUARE_CHR" "\<not> WS (ord (s ! ptr))"
             "s ! ptr \<noteq> DOUBLE_QUOTE_CHR"
      by blast
    then show ?thesis
    proof cases
      case wc
      have "scan_loop2 s (slice s fr ptr @ [s ! ptr]) (ptr + 1) =
          scan_result2 (scan_loop mem s fr (ptr + 1) (ptr + 1))"
        using step.IH(1) inside wc step.prems slice_snoc [of fr ptr s]
        by (simp add: tab)
      then show ?thesis using inside wc step.prems
        by (simp add: scan_loop_wordchar scan_loop2_wordchar tab)
    next
      case br
      show ?thesis
      proof (cases "bytes_find s CLOSE_SQUARE_CHR (ptr + 1) = - 1")
        case True
        then show ?thesis using inside br
          by (simp add: scan_loop_bracket_fail scan_loop2_bracket_fail
                as_protocol_error_def no_closing_neq_Nil scan_result2_def)
      next
        case False
        then obtain i where i: "bytes_find s CLOSE_SQUARE_CHR (ptr + 1) = int i"
          using bytes_find_range [of s CLOSE_SQUARE_CHR "ptr + 1"]
          by (metis nonneg_int_cases of_nat_0_le_iff order_trans)
        then have range: "ptr + 1 \<le> i" "i < length s"
          using bytes_find_found by blast+
        have "slice s fr (i + 1) = slice s fr ptr @ slice s ptr (i + 1)"
          using slice_append [of fr ptr "i + 1" s] range step.prems by simp
        moreover have "scan_loop2 s (slice s fr (i + 1)) (i + 1) =
            scan_result2 (scan_loop mem s fr (i + 1) (i + 1))"
          using step.IH(2) inside br False i range step.prems
          by (simp add: nat_add_distrib table_special)
        ultimately have "scan_loop2 s (slice s fr ptr @ slice s ptr (i + 1)) (i + 1) =
            scan_result2 (scan_loop mem s fr (i + 1) (i + 1))"
          by simp
        then show ?thesis using inside br i
          by (simp add: scan_loop_bracket [of ptr s i] scan_loop2_bracket [of ptr s i])
      qed
    next
      case ws
      then show ?thesis using inside tab
        by (simp add: scan_loop_ws scan_loop2_ws scan_result2_def)
    next
      case dq
      show ?thesis
      proof (cases "fr < ptr")
        case True
        then show ?thesis using inside dq
          by (simp add: scan_loop_quote_pending scan_loop2_quote_pending nonempty
                as_protocol_error_def scan_result2_def)
      next
        case False
        then have empty: "slice s fr ptr = []" using nonempty by simp
        have "as_protocol_error e = e" if "quote_loop s [DOUBLE_QUOTE_CHR] (ptr + 1) = Inl e" for e
          using quote_loop_error [OF that] by (auto simp: as_protocol_error_def no_closing_def)
        then show ?thesis using inside dq False empty step.prems(1)
          by (auto simp: scan_loop_quote scan_loop2_quote quote_loop_eq scan_result2_def
                split: sum.splits)
      qed
    next
      case pu
      then show ?thesis using inside tab
        by (simp add: scan_loop_punct scan_loop2_punct nonempty scan_result2_def)
    qed
  qed
qed

lemma read_token_stream_from_eq:
  "\<forall>c \<in> set s. ord c < 128 \<Longrightarrow>
   read_token_stream_from2 s ptr = stream_result2 (read_token_stream_from mem s ptr)"
proof (induction mem s ptr rule: read_token_stream_from_induct)
  case (step mem s ptr)
  show ?case
  proof (cases "ptr < length s")
    case False
    then show ?thesis
      by (simp add: read_token_stream_from_end read_token_stream_from2_end stream_result2_def)
  next
    case True
    let ?p = "skip_ws s ptr"
    have "?p \<le> length s" using True by (simp add: skip_ws_le)
    then have scan: "scan_loop2 s [] ?p = scan_result2 (scan_loop mem s ?p ?p ?p)"
      using scan_loop_eq [of s ?p ?p ?p mem] step.prems by (simp add: slice_def)
    obtain toks r where r: "scan_loop mem s ?p ?p ?p = (toks, r)"
      by (cases "scan_loop mem s ?p ?p ?p")
    show ?thesis
    proof (cases r)
      case (Inl e)
      then show ?thesis using True r scan
        by (simp add: read_token_stream_from_unfold [of mem s ptr]
              read_token_stream_from2_unfold [of s ptr] stream_result2_def scan_result2_def
              skip_ws_eq)
    next
      case (Inr ptr2)
      then have "read_token_stream_from2 s ptr2 =
          stream_result2 (read_token_stream_from mem s ptr2)"
        using step.IH True r step.prems by simp
      then show ?thesis using True r scan Inr
        by (simp add: read_token_stream_from_unfold [of mem s ptr]
              read_token_stream_from2_unfold [of s ptr] stream_result2_def scan_result2_def
              skip_ws_eq)
    qed
  qed
qed

lemma read_token_stream_eq:
  "\<forall>c \<in> set s. ord c < 128 \<Longrightarrow>
   read_token_stream2 s = stream_result2 (read_token_stream mem s)"
  by (simp add: read_token_stream2_def read_token_stream_def read_token_stream_from_eq)

lemma read_token_stream_ok:
  "\<forall>c \<in> set s. ord c < 128 \<Longrightarrow> read_token_stream2 s = (toks, None) \<Longrightarrow>
   read_token_stream mem s = (toks, None)"
  using read_token_stream_eq [of s mem]
  by (cases "read_token_stream mem s") (auto simp: stream_result2_def)

section \<open>Tokens of the set-membership reader are not empty\<close>

lemma scan_loop2_nonempty:
  "(token = [] \<Longrightarrow> ptr < length s \<Longrightarrow> \<not> WS (ord (s ! ptr))) \<Longrightarrow>
   t \<in> set (fst (scan_loop2 s token ptr)) \<Longrightarrow> t \<noteq> []"
proof (induction s token ptr rule: scan_loop2_induct)
  case (step s token ptr)
  show ?case
  proof (cases "ptr < length s")
    case False
    then show ?thesis using step.prems(2)
      by (auto simp: scan_loop2_end split: if_splits)
  next
    case inside: True
    consider (wc) "WC (ord (s ! ptr))"
      | (br) "\<not> WC (ord (s ! ptr))" "s ! ptr = OPEN_SQUARE_CHR"
      | (ws) "\<not> WC (ord (s ! ptr))" "s ! ptr \<noteq> OPEN_SQUARE_CHR" "WS (ord (s ! ptr))"
      | (dq) "\<not> WC (ord (s ! ptr))" "s ! ptr \<noteq> OPEN_SQUARE_CHR" "\<not> WS (ord (s ! ptr))"
             "s ! ptr = DOUBLE_QUOTE_CHR"
      | (pu) "\<not> WC (ord (s ! ptr))" "s ! ptr \<noteq> OPEN_SQUARE_CHR" "\<not> WS (ord (s ! ptr))"
             "s ! ptr \<noteq> DOUBLE_QUOTE_CHR"
      by blast
    then show ?thesis
    proof cases
      case wc
      have "t \<in> set (fst (scan_loop2 s (token @ [s ! ptr]) (ptr + 1)))"
        using step.prems(2) inside wc by (simp add: scan_loop2_wordchar)
      then show ?thesis using step.IH(1) inside wc by (simp add: wordchars_iff)
    next
      case br
      show ?thesis
      proof (cases "bytes_find s CLOSE_SQUARE_CHR (ptr + 1) = - 1")
        case True
        then show ?thesis using step.prems(2) inside br by (simp add: scan_loop2_bracket_fail)
      next
        case False
        then show ?thesis using step.IH(2) step.prems(2) inside br
          by (simp add: scan_loop2.simps [of s token ptr] wordchars_iff Let_def)
      qed
    next
      case ws
      then have "token \<noteq> []" using step.prems(1) inside by auto
      then show ?thesis using step.prems(2) inside ws by (simp add: scan_loop2_ws)
    next
      case dq
      show ?thesis
      proof (cases "token = []")
        case False
        then show ?thesis using step.prems(2) inside dq by (simp add: scan_loop2_quote_pending)
      next
        case True
        then show ?thesis using step.prems(2) inside dq
          by (auto simp: scan_loop2_quote split: sum.splits dest: quote_loop2_token)
      qed
    next
      case pu
      then show ?thesis using step.prems(2) inside
        by (auto simp: scan_loop2_punct split: if_splits)
    qed
  qed
qed

lemma read_token_stream_from2_nonempty:
  "t \<in> set (fst (read_token_stream_from2 s ptr)) \<Longrightarrow> t \<noteq> []"
proof (induction s ptr rule: read_token_stream_from2_induct)
  case (step s ptr)
  show ?case
  proof (cases "ptr < length s")
    case False
    then show ?thesis using step.prems by (simp add: read_token_stream_from2_end)
  next
    case True
    let ?p = "skip_ws2 s ptr"
    have scan: "t' \<in> set (fst (scan_loop2 s [] ?p)) \<Longrightarrow> t' \<noteq> []" for t'
      using scan_loop2_nonempty [of "[]" ?p s t'] skip_ws_stop [of s ptr]
      by (auto simp: skip_ws_eq)
    obtain toks r where r: "scan_loop2 s [] ?p = (toks, r)" by (cases "scan_loop2 s [] ?p")
    show ?thesis
    proof (cases r)
      case (Inl e)
      then show ?thesis using step.prems True r scan
        by (auto simp: read_token_stream_from2_unfold [of s ptr])
    next
      case (Inr ptr2)
      then show ?thesis using step.prems step.IH True r scan
        by (auto simp: read_token_stream_from2_unfold [of s ptr])
    qed
  qed
qed

section \<open>Reading a single token again\<close>

lemma scan_loop2_wordchars:
  "ptr \<le> length s \<Longrightarrow> token @ drop ptr s \<noteq> [] \<Longrightarrow>
   (\<forall>i. ptr \<le> i \<and> i < length s \<longrightarrow> WC (ord (s ! i))) \<Longrightarrow>
   scan_loop2 s token ptr = ([token @ drop ptr s], Inr (length s))"
proof (induction s token ptr rule: scan_loop2_induct)
  case (step s token ptr)
  show ?case
  proof (cases "ptr < length s")
    case False
    then show ?thesis using step.prems by (simp add: scan_loop2_end)
  next
    case True
    then have wc: "WC (ord (s ! ptr))" using step.prems by simp
    have d: "drop ptr s = s ! ptr # drop (ptr + 1) s"
      using True by (simp add: Cons_nth_drop_Suc)
    have "scan_loop2 s (token @ [s ! ptr]) (ptr + 1) =
        ([(token @ [s ! ptr]) @ drop (ptr + 1) s], Inr (length s))"
      using step.IH(1) True wc step.prems by (simp add: wordchars_iff)
    then show ?thesis using True wc d by (simp add: scan_loop2_wordchar)
  qed
qed

lemma read_atom2:
  assumes "t \<noteq> []" and "\<forall>c \<in> set t. WC (ord c)"
  shows "read_token_stream2 t = ([t], None)"
proof -
  have wc: "\<forall>i. 0 \<le> i \<and> i < length t \<longrightarrow> WC (ord (t ! i))" using assms(2) by simp
  have "WC (ord (t ! 0))" using assms by (simp add: hd_conv_nth [symmetric])
  then have "\<not> WS (ord (t ! 0))" using WS_not_WC by blast
  then have "skip_ws2 t 0 = 0" using assms(1) by (simp add: skip_ws_none skip_ws_eq)
  moreover have "scan_loop2 t [] 0 = ([t], Inr (length t))"
    using scan_loop2_wordchars [of 0 t "[]"] wc assms(1) by simp
  ultimately show ?thesis using assms(1)
    by (simp add: read_token_stream2_def read_token_stream_from2_unfold [of t 0]
          read_token_stream_from2_end)
qed

lemma quote_loop2_verbatim:
  "0 < ptr \<Longrightarrow> ptr < length s \<Longrightarrow> s ! (length s - 1) = DOUBLE_QUOTE_CHR \<Longrightarrow>
   (\<forall>i. ptr \<le> i \<and> i + 1 < length s \<longrightarrow> s ! i \<noteq> DOUBLE_QUOTE_CHR) \<Longrightarrow>
   (\<forall>i. ptr \<le> i \<and> i + 1 < length s \<and> s ! i = BACKSLASH_CHR \<longrightarrow>
        s ! (i + 1) \<noteq> BACKSLASH_CHR \<and> s ! (i + 1) \<noteq> DOUBLE_QUOTE_CHR) \<Longrightarrow>
   quote_loop2 s token ptr = Inr (token @ drop ptr s, length s)"
proof (induction s token ptr rule: quote_loop2_induct)
  case (step s token ptr)
  show ?case
  proof (cases "ptr + 1 < length s")
    case False
    then have last: "ptr = length s - 1" "ptr + 1 = length s" using step.prems by auto
    then have "drop ptr s = [DOUBLE_QUOTE_CHR]"
      using step.prems by (metis Cons_nth_drop_Suc Suc_eq_plus1 drop_all order_refl)
    then show ?thesis using step.prems last by (simp add: quote_loop2_close)
  next
    case True
    then have nq: "s ! ptr \<noteq> DOUBLE_QUOTE_CHR" using step.prems(4) by simp
    have d: "drop ptr s = s ! ptr # drop (ptr + 1) s"
      using step.prems(2) by (simp add: Cons_nth_drop_Suc)
    have bs: "BACKSLASH_CHR \<noteq> DOUBLE_QUOTE_CHR" by (simp add: chr_consts)
    have rest: "quote_loop2 s (token @ [s ! ptr]) (ptr + 1) =
        Inr ((token @ [s ! ptr]) @ drop (ptr + 1) s, length s)"
    proof (rule step.IH(2))
      show "ptr < length s" using step.prems by simp
      show "s ! ptr \<noteq> DOUBLE_QUOTE_CHR" by (rule nq)
      show "\<not> (s ! ptr = BACKSLASH_CHR \<and> length s \<le> ptr + 1)" using True by simp
      show "\<not> (s ! ptr = BACKSLASH_CHR \<and>
          (s ! (ptr + 1) = BACKSLASH_CHR \<or> s ! (ptr + 1) = DOUBLE_QUOTE_CHR))"
        using step.prems(5) True by auto
      show "0 < ptr + 1" by simp
      show "ptr + 1 < length s" by (rule True)
      show "s ! (length s - 1) = DOUBLE_QUOTE_CHR" by (rule step.prems(3))
      show "\<forall>i. ptr + 1 \<le> i \<and> i + 1 < length s \<longrightarrow> s ! i \<noteq> DOUBLE_QUOTE_CHR"
        using step.prems(4) by simp
      show "\<forall>i. ptr + 1 \<le> i \<and> i + 1 < length s \<and> s ! i = BACKSLASH_CHR \<longrightarrow>
          s ! (i + 1) \<noteq> BACKSLASH_CHR \<and> s ! (i + 1) \<noteq> DOUBLE_QUOTE_CHR"
        using step.prems(5) by simp
    qed
    show ?thesis
    proof (cases "s ! ptr = BACKSLASH_CHR")
      case True': True
      then have "s ! (ptr + 1) \<noteq> BACKSLASH_CHR" "s ! (ptr + 1) \<noteq> DOUBLE_QUOTE_CHR"
        using step.prems(5) True by auto
      then show ?thesis using True True' rest d
        by (simp add: quote_loop2_lone_backslash)
    next
      case False
      then show ?thesis using True nq rest d
        by (simp add: quote_loop2_other)
    qed
  qed
qed

lemma read_quoted2:
  assumes "DOUBLE_QUOTE_CHR \<notin> set body"
    and "\<forall>i<length body. body ! i = BACKSLASH_CHR \<longrightarrow>
           Suc i < length body \<and> body ! Suc i \<noteq> BACKSLASH_CHR"
  shows "read_token_stream2 (DOUBLE_QUOTE_CHR # body @ [DOUBLE_QUOTE_CHR]) =
         ([DOUBLE_QUOTE_CHR # body @ [DOUBLE_QUOTE_CHR]], None)"
proof -
  let ?t = "DOUBLE_QUOTE_CHR # body @ [DOUBLE_QUOTE_CHR]"
  have len: "length ?t = length body + 2" by simp
  have inner: "?t ! i = body ! (i - 1)" if "1 \<le> i" "i + 1 < length ?t" for i
    using that by (cases i) (auto simp: nth_append)
  have q1: "\<forall>i. 1 \<le> i \<and> i + 1 < length ?t \<longrightarrow> ?t ! i \<noteq> DOUBLE_QUOTE_CHR"
  proof (intro allI impI)
    fix i assume i: "1 \<le> i \<and> i + 1 < length ?t"
    then have "i - 1 < length body" by auto
    then have "body ! (i - 1) \<in> set body" by (rule nth_mem)
    then show "?t ! i \<noteq> DOUBLE_QUOTE_CHR" using inner [of i] i assms(1) by metis
  qed
  have q2: "\<forall>i. 1 \<le> i \<and> i + 1 < length ?t \<and> ?t ! i = BACKSLASH_CHR \<longrightarrow>
      ?t ! (i + 1) \<noteq> BACKSLASH_CHR \<and> ?t ! (i + 1) \<noteq> DOUBLE_QUOTE_CHR"
  proof (intro allI impI)
    fix i assume i: "1 \<le> i \<and> i + 1 < length ?t \<and> ?t ! i = BACKSLASH_CHR"
    then have "body ! (i - 1) = BACKSLASH_CHR" "i - 1 < length body" using inner [of i] by auto
    then have next_in: "Suc (i - 1) < length body" "body ! Suc (i - 1) \<noteq> BACKSLASH_CHR"
      using assms(2) by auto
    then have "i + 1 + 1 < length ?t" using i by simp
    then have "?t ! (i + 1) = body ! i" using inner [of "i + 1"] by simp
    moreover have "i < length body" using next_in i by auto
    then have "body ! i \<in> set body" by (rule nth_mem)
    ultimately show "?t ! (i + 1) \<noteq> BACKSLASH_CHR \<and> ?t ! (i + 1) \<noteq> DOUBLE_QUOTE_CHR"
      using next_in i assms(1) by (metis One_nat_def Suc_pred less_eq_Suc_le)
  qed
  have "?t ! (length ?t - 1) = DOUBLE_QUOTE_CHR" by (simp add: nth_append)
  then have "quote_loop2 ?t [DOUBLE_QUOTE_CHR] 1 = Inr ([DOUBLE_QUOTE_CHR] @ drop 1 ?t, length ?t)"
    using q1 q2 by (intro quote_loop2_verbatim) simp_all
  then have "scan_loop2 ?t [] 0 = ([?t], Inr (length ?t))"
    by (simp add: scan_loop2_quote)
  moreover have "skip_ws2 ?t 0 = 0"
    using WC_not_special(4) by (simp add: skip_ws_none skip_ws_eq)
  ultimately show ?thesis
    by (simp add: read_token_stream2_def read_token_stream_from2_unfold [of ?t 0]
          read_token_stream_from2_end)
qed

section \<open>When the quote loop fails\<close>

lemma backslashes_before_start: "i \<le> ptr \<Longrightarrow> backslashes_before s ptr i = 0"
  by (cases i) auto

lemma backslashes_before_cut:
  "ptr \<le> q \<Longrightarrow> s ! q \<noteq> BACKSLASH_CHR \<Longrightarrow> q < i \<Longrightarrow>
   backslashes_before s ptr i = backslashes_before s (q + 1) i"
proof (induction i)
  case 0
  then show ?case by simp
next
  case (Suc j)
  show ?case
  proof (cases "j = q")
    case True
    then show ?thesis using Suc.prems by simp
  next
    case False
    then have "q < j" using Suc.prems by simp
    then show ?thesis using Suc by simp
  qed
qed

lemma backslashes_before_pair:
  "s ! ptr = BACKSLASH_CHR \<Longrightarrow> s ! (ptr + 1) = BACKSLASH_CHR \<Longrightarrow> ptr + 2 \<le> i \<Longrightarrow>
   even (backslashes_before s ptr i) = even (backslashes_before s (ptr + 2) i)"
proof (induction i)
  case 0
  then show ?case by simp
next
  case (Suc j)
  show ?case
  proof (cases "j = ptr + 1")
    case True
    then show ?thesis using Suc.prems by (simp add: backslashes_before_start)
  next
    case False
    then have "ptr + 2 \<le> j" using Suc.prems by simp
    then show ?thesis using Suc by simp
  qed
qed

lemma unescaped_quote_skip:
  assumes "ptr < length s" "s ! ptr \<noteq> BACKSLASH_CHR" "s ! ptr \<noteq> DOUBLE_QUOTE_CHR"
  shows "(\<exists>i. unescaped_quote s ptr i) \<longleftrightarrow> (\<exists>i. unescaped_quote s (ptr + 1) i)"
proof -
  have "unescaped_quote s ptr i \<longleftrightarrow> unescaped_quote s (ptr + 1) i" for i
  proof (cases "ptr < i")
    case True
    then show ?thesis
      using backslashes_before_cut [of ptr ptr s i] assms by (simp add: unescaped_quote_def)
  next
    case False
    then show ?thesis using assms by (auto simp: unescaped_quote_def)
  qed
  then show ?thesis by simp
qed

lemma unescaped_quote_lone:
  assumes "ptr + 1 < length s" "s ! ptr = BACKSLASH_CHR"
    "s ! (ptr + 1) \<noteq> BACKSLASH_CHR" "s ! (ptr + 1) \<noteq> DOUBLE_QUOTE_CHR"
  shows "(\<exists>i. unescaped_quote s ptr i) \<longleftrightarrow> (\<exists>i. unescaped_quote s (ptr + 1) i)"
proof -
  have bs: "BACKSLASH_CHR \<noteq> DOUBLE_QUOTE_CHR" by (simp add: chr_consts)
  have "unescaped_quote s ptr i \<longleftrightarrow> unescaped_quote s (ptr + 1) i" for i
  proof (cases "ptr + 1 < i")
    case True
    then show ?thesis
      using backslashes_before_cut [of ptr "ptr + 1" s i]
        backslashes_before_cut [of "ptr + 1" "ptr + 1" s i] assms
      by (simp add: unescaped_quote_def)
  next
    case False
    then have "i \<le> ptr \<or> i = ptr + 1" by auto
    then show ?thesis using assms bs by (auto simp: unescaped_quote_def)
  qed
  then show ?thesis by simp
qed

lemma unescaped_quote_escape:
  assumes "ptr + 1 < length s" "s ! ptr = BACKSLASH_CHR"
    "s ! (ptr + 1) = BACKSLASH_CHR \<or> s ! (ptr + 1) = DOUBLE_QUOTE_CHR"
  shows "(\<exists>i. unescaped_quote s ptr i) \<longleftrightarrow> (\<exists>i. unescaped_quote s (ptr + 2) i)"
proof -
  have bs: "BACKSLASH_CHR \<noteq> DOUBLE_QUOTE_CHR" by (simp add: chr_consts)
  have "unescaped_quote s ptr i \<longleftrightarrow> unescaped_quote s (ptr + 2) i" for i
  proof (cases "ptr + 2 \<le> i")
    case True
    have "even (backslashes_before s ptr i) = even (backslashes_before s (ptr + 2) i)"
    proof (cases "s ! (ptr + 1) = BACKSLASH_CHR")
      case True
      then show ?thesis using backslashes_before_pair assms \<open>ptr + 2 \<le> i\<close> by blast
    next
      case False
      then show ?thesis
        using backslashes_before_cut [of ptr "ptr + 1" s i] \<open>ptr + 2 \<le> i\<close> by simp
    qed
    then show ?thesis using True by (simp add: unescaped_quote_def)
  next
    case False
    then have "i < ptr \<or> i = ptr \<or> i = ptr + 1" by auto
    then show ?thesis using assms bs
      by (auto simp: unescaped_quote_def backslashes_before_start)
  qed
  then show ?thesis by simp
qed

lemma quote_loop2_fails_iff:
  "(\<exists>e. quote_loop2 s token ptr = Inl e) \<longleftrightarrow> \<not> (\<exists>i. unescaped_quote s ptr i)"
proof (induction s token ptr rule: quote_loop2_induct)
  case (step s token ptr)
  have bs: "BACKSLASH_CHR \<noteq> DOUBLE_QUOTE_CHR" by (simp add: chr_consts)
  consider (at_end) "length s \<le> ptr"
    | (closing) "ptr < length s" "s ! ptr = DOUBLE_QUOTE_CHR"
    | (trail) "ptr < length s" "s ! ptr = BACKSLASH_CHR" "length s \<le> ptr + 1"
    | (esc) "ptr + 1 < length s" "s ! ptr = BACKSLASH_CHR"
        "s ! (ptr + 1) = BACKSLASH_CHR \<or> s ! (ptr + 1) = DOUBLE_QUOTE_CHR"
    | (lone) "ptr + 1 < length s" "s ! ptr = BACKSLASH_CHR"
        "s ! (ptr + 1) \<noteq> BACKSLASH_CHR" "s ! (ptr + 1) \<noteq> DOUBLE_QUOTE_CHR"
    | (other) "ptr < length s" "s ! ptr \<noteq> BACKSLASH_CHR" "s ! ptr \<noteq> DOUBLE_QUOTE_CHR"
    by (metis Suc_eq_plus1 Suc_leI le_neq_implies_less not_le)
  then show ?case
  proof cases
    case at_end
    then show ?thesis by (auto simp: quote_loop2_end unescaped_quote_def)
  next
    case closing
    then have "unescaped_quote s ptr ptr"
      by (simp add: unescaped_quote_def backslashes_before_start)
    then show ?thesis using closing by (auto simp: quote_loop2_close)
  next
    case trail
    then have "\<not> unescaped_quote s ptr i" for i
      using bs by (cases "i = ptr") (auto simp: unescaped_quote_def)
    then show ?thesis using trail by (simp add: quote_loop2_trailing_backslash)
  next
    case esc
    have "(\<exists>e. quote_loop2 s (token @ [s ! (ptr + 1)]) (ptr + 2) = Inl e) \<longleftrightarrow>
        \<not> (\<exists>i. unescaped_quote s (ptr + 2) i)"
      using step.IH(1) esc by simp
    then show ?thesis using esc unescaped_quote_escape [of ptr s]
      by (simp add: quote_loop2_escape)
  next
    case lone
    have "(\<exists>e. quote_loop2 s (token @ [s ! ptr]) (ptr + 1) = Inl e) \<longleftrightarrow>
        \<not> (\<exists>i. unescaped_quote s (ptr + 1) i)"
      using step.IH(2) lone bs by simp
    then show ?thesis using lone unescaped_quote_lone [of ptr s]
      by (simp add: quote_loop2_lone_backslash)
  next
    case other
    have "(\<exists>e. quote_loop2 s (token @ [s ! ptr]) (ptr + 1) = Inl e) \<longleftrightarrow>
        \<not> (\<exists>i. unescaped_quote s (ptr + 1) i)"
      using step.IH(2) other by simp
    then show ?thesis using other unescaped_quote_skip [of ptr s]
      by (simp add: quote_loop2_other)
  qed
qed

section \<open>Steps of the lexer\<close>

lemma endswith_close_brace:
  "endswith t ''}'' \<longleftrightarrow> t \<noteq> [] \<and> last t = CHR ''}''"
proof (cases t rule: rev_cases)
  case Nil
  then show ?thesis by (simp add: endswith_def)
next
  case (snoc ys y)
  then show ?thesis by (auto simp: endswith_def)
qed

lemma Lexer_iter_next_current:
  "Lexer_iter_next reader (l, g) = (out, (l', g')) \<Longrightarrow> current_source l \<noteq> None \<Longrightarrow>
   current_source l' \<noteq> None"
proof (induction reader "(l, g)" arbitrary: l g rule: Lexer_iter_next.induct)
  case (1 reader l g)
  show ?case using "1.prems" "1.hyps"
    by (auto simp: Lexer_iter_next.simps [of reader l g]
             split: lexer_iter.splits list.splits option.splits sum.splits prod.splits)
qed

lemma Lexer_iter_next_Finished:
  "Lexer_iter_next reader (l, Finished) = (StopIteration, (l, Finished))"
  by (simp add: Lexer_iter_next.simps)

lemma snd_pulls_Suc:
  "snd (pulls reader (Suc n) ts) = snd (pulls reader n (snd (TokenSource_next reader ts)))"
  by (simp split: prod.splits)

lemma pulls_current:
  "current_source (lex ts) \<noteq> None \<Longrightarrow> current_source (lex (snd (pulls reader n ts))) \<noteq> None"
proof (induction n arbitrary: ts)
  case 0
  then show ?case by simp
next
  case (Suc n)
  obtain out l g where step: "Lexer_iter_next reader (lex ts, src ts) = (out, (l, g))"
    by (metis prod.exhaust)
  then have "current_source l \<noteq> None"
    using Lexer_iter_next_current Suc.prems by blast
  then have "current_source (lex (snd (pulls reader n \<lparr>lex = l, src = g\<rparr>))) \<noteq> None"
    using Suc.IH [of "\<lparr>lex = l, src = g\<rparr>"] by simp
  then show ?case
    by (simp only: snd_pulls_Suc) (simp add: TokenSource_next_def step)
qed

lemma pulls_Finished:
  "src ts = Finished \<Longrightarrow> snd (pulls reader n ts) = ts"
proof (induction n arbitrary: ts)
  case 0
  then show ?case by simp
next
  case (Suc n)
  have "TokenSource_next reader ts = (StopIteration, ts)"
    using Suc.prems by (simp add: TokenSource_next_def Lexer_iter_next_Finished)
  then show ?case using Suc by (simp only: snd_pulls_Suc) simp
qed

lemma Lexer_iter_next_yield:
  "Lexer_iter_next reader (l, Running (tok # toks, e)) = (Yielded tok, (l, Running (toks, e)))"
  by (subst Lexer_iter_next.simps) simp

lemma Lexer_iter_next_raise:
  "Lexer_iter_next reader (l, Running ([], Some e)) = (Raised e, (l, Finished))"
  by (subst Lexer_iter_next.simps) simp

lemma Lexer_iter_next_exhausted:
  "sources l = [] \<Longrightarrow>
   Lexer_iter_next reader (l, Running ([], None)) = (StopIteration, (l, Finished))"
  by (subst Lexer_iter_next.simps) simp

lemma Lexer_iter_next_malformed:
  "sources l = chunk # rest \<Longrightarrow> LiteralHandlingIter_init chunk = Inl e \<Longrightarrow>
   Lexer_iter_next reader (l, Running ([], None)) = (Raised e, (l\<lparr>sources := rest\<rparr>, Finished))"
  by (subst Lexer_iter_next.simps) simp

lemma Lexer_iter_next_advance:
  "sources l = chunk # rest \<Longrightarrow> LiteralHandlingIter_init chunk = Inr source \<Longrightarrow>
   Lexer_iter_next reader (l, Running ([], None)) =
   Lexer_iter_next reader
     (l\<lparr>sources := rest, current_source := Some source\<rparr>, Running (reader (src_text source)))"
  by (subst Lexer_iter_next.simps) simp

lemmas Lexer_iter_next_steps =
  Lexer_iter_next_Finished Lexer_iter_next_yield Lexer_iter_next_raise
  Lexer_iter_next_exhausted Lexer_iter_next_malformed

lemma fst_pulls_Suc:
  "fst (pulls reader (Suc n) ts) =
     fst (TokenSource_next reader ts) # fst (pulls reader n (snd (TokenSource_next reader ts)))"
  by (simp split: prod.splits)

text \<open>
  Whatever is current in the lexer was made from one of the records it was given.
\<close>

lemma Lexer_iter_next_origin:
  "Lexer_iter_next reader (l, g) = (out, (l', g')) \<Longrightarrow>
   set (sources l) \<subseteq> R \<Longrightarrow>
   (\<forall>source. current_source l = Some source \<longrightarrow> (\<exists>r\<in>R. LiteralHandlingIter_init r = Inr source)) \<Longrightarrow>
   set (sources l') \<subseteq> R \<and>
   (\<forall>source. current_source l' = Some source \<longrightarrow> (\<exists>r\<in>R. LiteralHandlingIter_init r = Inr source))"
proof (induction reader "(l, g)" arbitrary: l g rule: Lexer_iter_next.induct)
  case (1 reader l g)
  show ?case
  proof (cases g)
    case Finished
    then show ?thesis using "1.prems" by (simp add: Lexer_iter_next_Finished)
  next
    case (Running stream)
    obtain toks e where stream: "stream = (toks, e)" by (cases stream)
    show ?thesis
    proof (cases toks)
      case (Cons tok rest)
      then show ?thesis using "1.prems" Running stream by (simp add: Lexer_iter_next_yield)
    next
      case Nil
      show ?thesis
      proof (cases e)
        case (Some err)
        then show ?thesis using "1.prems" Running stream Nil by (simp add: Lexer_iter_next_raise)
      next
        case None
        show ?thesis
        proof (cases "sources l")
          case Nil': Nil
          then show ?thesis using "1.prems" Running stream Nil None
            by (simp add: Lexer_iter_next_exhausted)
        next
          case (Cons chunk rest)
          show ?thesis
          proof (cases "LiteralHandlingIter_init chunk")
            case (Inl err)
            then show ?thesis using "1.prems" Running stream Nil None Cons
              by (auto simp: Lexer_iter_next_malformed [OF Cons Inl])
          next
            case (Inr source)
            let ?l = "l\<lparr>sources := rest, current_source := Some source\<rparr>"
            have step: "Lexer_iter_next reader (?l, Running (reader (src_text source))) = (out, (l', g'))"
              using "1.prems"(1) Running stream Nil None
              by (simp add: Lexer_iter_next_advance [OF Cons Inr])
            have sub: "set (sources ?l) \<subseteq> R" using "1.prems"(2) Cons by simp
            have cur: "\<forall>s. current_source ?l = Some s \<longrightarrow> (\<exists>r\<in>R. LiteralHandlingIter_init r = Inr s)"
              using "1.prems"(2) Cons Inr by auto
            show ?thesis
              using "1.hyps" [OF Running stream [symmetric] Nil None Cons Inr step sub cur] .
          qed
        qed
      qed
    qed
  qed
qed

lemma pulls_origin:
  "set (sources (lex ts)) \<subseteq> R \<Longrightarrow>
   (\<forall>source. current_source (lex ts) = Some source \<longrightarrow>
      (\<exists>r\<in>R. LiteralHandlingIter_init r = Inr source)) \<Longrightarrow>
   set (sources (lex (snd (pulls reader n ts)))) \<subseteq> R \<and>
   (\<forall>source. current_source (lex (snd (pulls reader n ts))) = Some source \<longrightarrow>
      (\<exists>r\<in>R. LiteralHandlingIter_init r = Inr source))"
proof (induction n arbitrary: ts)
  case 0
  then show ?case by simp
next
  case (Suc n)
  obtain out l g where step: "Lexer_iter_next reader (lex ts, src ts) = (out, (l, g))"
    by (metis prod.exhaust)
  have inv: "set (sources l) \<subseteq> R \<and>
     (\<forall>source. current_source l = Some source \<longrightarrow> (\<exists>r\<in>R. LiteralHandlingIter_init r = Inr source))"
    using Lexer_iter_next_origin [OF step Suc.prems] .
  have "set (sources (lex (snd (pulls reader n \<lparr>lex = l, src = g\<rparr>)))) \<subseteq> R \<and>
     (\<forall>source. current_source (lex (snd (pulls reader n \<lparr>lex = l, src = g\<rparr>))) = Some source \<longrightarrow>
        (\<exists>r\<in>R. LiteralHandlingIter_init r = Inr source))"
    using Suc.IH [of "\<lparr>lex = l, src = g\<rparr>"] inv by simp
  then show ?case
    by (simp only: snd_pulls_Suc) (simp add: TokenSource_next_def step)
qed

lemma pulls_init_origin:
  "current_source (lex (snd (pulls reader n (TokenSource_init text)))) = Some source \<Longrightarrow>
   \<exists>r\<in>set text. LiteralHandlingIter_init r = Inr source"
  using pulls_origin [of "TokenSource_init text" "set text" reader n]
  by (simp add: TokenSource_init_def Lexer_init_def)

lemma LiteralHandlingIter_init_literal:
  "LiteralHandlingIter_init r = Inr source \<Longrightarrow>
   literal source = (case r of Plain t \<Rightarrow> None | WithLiteral t lit \<Rightarrow> Some lit)"
  by (auto simp: LiteralHandlingIter_init_def assert_imap_protocol_def
           split: resp_record.splits if_splits)

lemma pulls_init_current_iff:
  "current_source (lex (snd (pulls reader n (TokenSource_init text)))) \<noteq> None \<longleftrightarrow>
   (0 < n \<and> (\<exists>r rs source. text = r # rs \<and> LiteralHandlingIter_init r = Inr source))"
proof (cases n)
  case 0
  then show ?thesis
    by (simp add: TokenSource_init_def Lexer_init_def)
next
  case (Suc m)
  let ?ts = "TokenSource_init text"
  show ?thesis
  proof (cases "text")
    case Nil
    then have "TokenSource_next reader ?ts = (StopIteration, ?ts\<lparr>src := Finished\<rparr>)"
      by (simp add: TokenSource_next_def TokenSource_init_def Lexer_init_def Lexer_iter_next.simps)
    then have "snd (pulls reader n ?ts) = ?ts\<lparr>src := Finished\<rparr>"
      using Suc pulls_Finished [of "?ts\<lparr>src := Finished\<rparr>" reader m]
      by (simp only: snd_pulls_Suc) simp
    then show ?thesis using Nil
      by (simp add: TokenSource_init_def Lexer_init_def)
  next
    case (Cons r rs)
    show ?thesis
    proof (cases "LiteralHandlingIter_init r")
      case (Inl e)
      let ?ts' = "\<lparr>lex = \<lparr>sources = rs, current_source = None\<rparr>, src = Finished\<rparr>"
      have "TokenSource_next reader ?ts = (Raised e, ?ts')"
        using Cons Inl
        by (simp add: TokenSource_next_def TokenSource_init_def Lexer_init_def Lexer_iter_next.simps)
      then have "snd (pulls reader n ?ts) = ?ts'"
        using Suc pulls_Finished [of ?ts' reader m] by (simp only: snd_pulls_Suc) simp
      then show ?thesis using Cons Inl by simp
    next
      case (Inr source)
      obtain out l g where step:
        "Lexer_iter_next reader
           (\<lparr>sources = rs, current_source = Some source\<rparr>, Running (reader (src_text source))) =
         (out, (l, g))"
        by (metis prod.exhaust)
      then have cur: "current_source l \<noteq> None"
        using Lexer_iter_next_current by fastforce
      have "TokenSource_next reader ?ts = (out, \<lparr>lex = l, src = g\<rparr>)"
        using Cons Inr step
        by (simp add: TokenSource_next_def TokenSource_init_def Lexer_init_def Lexer_iter_next.simps)
      then have "snd (pulls reader n ?ts) = snd (pulls reader m \<lparr>lex = l, src = g\<rparr>)"
        using Suc by (simp only: snd_pulls_Suc) simp
      then have "current_source (lex (snd (pulls reader n ?ts))) \<noteq> None"
        using pulls_current [of "\<lparr>lex = l, src = g\<rparr>" reader m] cur by simp
      then show ?thesis using Cons Inr Suc by simp
    qed
  qed
qed

section \<open>Reading a token again\<close>

text \<open>
  Claim C1, as amended. Tokenizing an atom (a non-empty run of word characters) on its own
  yields exactly that atom. Tokenizing a quoted-string token on its own yields exactly that
  token when its content, between the two delimiters, holds no double quote and every
  backslash in it is followed, inside the content, by a byte that is not a backslash. The
  set-membership reader does so for all such tokens, the table-driven reader for those
  made of bytes below \<open>0x80\<close>.
\<close>

theorem retokenize_token:
  "(t \<noteq> [] \<and> (\<forall>c \<in> set t. WC (ord c)) \<longrightarrow> read_token_stream2 t = ([t], None))
   \<and> (t \<noteq> [] \<and> (\<forall>c \<in> set t. WC (ord c)) \<and> (\<forall>c \<in> set t. ord c < 128) \<longrightarrow>
      read_token_stream mem t = ([t], None))
   \<and> (DOUBLE_QUOTE_CHR \<notin> set body \<and>
       (\<forall>i<length body. body ! i = BACKSLASH_CHR \<longrightarrow>
            Suc i < length body \<and> body ! Suc i \<noteq> BACKSLASH_CHR) \<longrightarrow>
      read_token_stream2 (DOUBLE_QUOTE_CHR # body @ [DOUBLE_QUOTE_CHR]) =
        ([DOUBLE_QUOTE_CHR # body @ [DOUBLE_QUOTE_CHR]], None))
   \<and> (DOUBLE_QUOTE_CHR \<notin> set body \<and>
       (\<forall>i<length body. body ! i = BACKSLASH_CHR \<longrightarrow>
            Suc i < length body \<and> body ! Suc i \<noteq> BACKSLASH_CHR) \<and>
       (\<forall>c \<in> set body. ord c < 128) \<longrightarrow>
      read_token_stream mem (DOUBLE_QUOTE_CHR # body @ [DOUBLE_QUOTE_CHR]) =
        ([DOUBLE_QUOTE_CHR # body @ [DOUBLE_QUOTE_CHR]], None))"
proof (intro conjI impI)
  assume "t \<noteq> [] \<and> (\<forall>c \<in> set t. WC (ord c))"
  then show "read_token_stream2 t = ([t], None)"
    using read_atom2 [of t] by simp
next
  assume a: "t \<noteq> [] \<and> (\<forall>c \<in> set t. WC (ord c)) \<and> (\<forall>c \<in> set t. ord c < 128)"
  then have "read_token_stream2 t = ([t], None)"
    using read_atom2 [of t] by simp
  then show "read_token_stream mem t = ([t], None)"
    using a read_token_stream_ok [of t "[t]" mem] by simp
next
  assume "DOUBLE_QUOTE_CHR \<notin> set body \<and>
       (\<forall>i<length body. body ! i = BACKSLASH_CHR \<longrightarrow>
            Suc i < length body \<and> body ! Suc i \<noteq> BACKSLASH_CHR)"
  then show "read_token_stream2 (DOUBLE_QUOTE_CHR # body @ [DOUBLE_QUOTE_CHR]) =
        ([DOUBLE_QUOTE_CHR # body @ [DOUBLE_QUOTE_CHR]], None)"
    using read_quoted2 [of body] by simp
next
  let ?s = "DOUBLE_QUOTE_CHR # body @ [DOUBLE_QUOTE_CHR]"
  assume a: "DOUBLE_QUOTE_CHR \<notin> set body \<and>
       (\<forall>i<length body. body ! i = BACKSLASH_CHR \<longrightarrow>
            Suc i < length body \<and> body ! Suc i \<noteq> BACKSLASH_CHR) \<and>
       (\<forall>c \<in> set body. ord c < 128)"
  then have r2: "read_token_stream2 ?s = ([?s], None)"
    using read_quoted2 [of body] by simp
  have "ord DOUBLE_QUOTE_CHR < 128"
    by (simp add: DOUBLE_QUOTE_CHR_def ord_def)
  then have "\<forall>c \<in> set ?s. ord c < 128" using a by simp
  then show "read_token_stream mem ?s = ([?s], None)"
    using r2 read_token_stream_ok [of ?s "[?s]" mem] by simp
qed

theorem retokenize_token_witness:
  \<open>read_token_stream2 ''FETCH'' = ([''FETCH''], None)
   \<and> read_token_stream example_memory ''FETCH'' = ([''FETCH''], None)
   \<and> read_token_stream2 [CHR 0x22, CHR ''a'', CHR 0x5C, CHR ''b'', CHR 0x22] =
       ([[CHR 0x22, CHR ''a'', CHR 0x5C, CHR ''b'', CHR 0x22]], None)
   \<and> read_token_stream example_memory [CHR 0x22, CHR ''a'', CHR 0x5C, CHR ''b'', CHR 0x22] =
       ([[CHR 0x22, CHR ''a'', CHR 0x5C, CHR ''b'', CHR 0x22]], None)\<close>
proof -
  have low: \<open>\<forall>c \<in> set ''FETCH''. ord c < 128\<close>
    \<open>\<forall>c \<in> set [CHR ''a'', CHR 0x5C, CHR ''b'']. ord c < 128\<close>
    by (simp_all add: ord_def)
  show ?thesis
    using retokenize_token [where t = \<open>''FETCH''\<close> and body = \<open>[CHR ''a'', CHR 0x5C, CHR ''b'']\<close>
        and mem = example_memory] low
    by (simp add: WC_ord chr_consts less_Suc_eq)
qed

text \<open>
  The claim as stated fails for a quoted string with escapes: the token read from
  \<^verbatim>\<open>"ab\"cd\\ef"\<close> is \<^verbatim>\<open>"ab"cd\ef"\<close>, and reading that token again yields \<^verbatim>\<open>"ab"\<close> and
  then fails at the quote that follows \<^verbatim>\<open>cd\ef\<close>.
\<close>

theorem retokenize_unescaped_fails:
  \<open>read_token_stream example_memory
     [CHR 0x22, CHR ''a'', CHR ''b'', CHR 0x5C, CHR 0x22, CHR ''c'', CHR ''d'', CHR 0x5C,
      CHR 0x5C, CHR ''e'', CHR ''f'', CHR 0x22] =
     ([[CHR 0x22, CHR ''a'', CHR ''b'', CHR 0x22, CHR ''c'', CHR ''d'', CHR 0x5C, CHR ''e'',
        CHR ''f'', CHR 0x22]], None)
   \<and> read_token_stream example_memory
     [CHR 0x22, CHR ''a'', CHR ''b'', CHR 0x22, CHR ''c'', CHR ''d'', CHR 0x5C, CHR ''e'',
      CHR ''f'', CHR 0x22] =
     ([[CHR 0x22, CHR ''a'', CHR ''b'', CHR 0x22]], Some (ValueError ''''))
   \<and> read_token_stream2
     [CHR 0x22, CHR ''a'', CHR ''b'', CHR 0x5C, CHR 0x22, CHR ''c'', CHR ''d'', CHR 0x5C,
      CHR 0x5C, CHR ''e'', CHR ''f'', CHR 0x22] =
     ([[CHR 0x22, CHR ''a'', CHR ''b'', CHR 0x22, CHR ''c'', CHR ''d'', CHR 0x5C, CHR ''e'',
        CHR ''f'', CHR 0x22]], None)
   \<and> read_token_stream2
     [CHR 0x22, CHR ''a'', CHR ''b'', CHR 0x22, CHR ''c'', CHR ''d'', CHR 0x5C, CHR ''e'',
      CHR ''f'', CHR 0x22] =
     ([[CHR 0x22, CHR ''a'', CHR ''b'', CHR 0x22]], Some (ProtocolError None))\<close>
  by (simp add: run_simps run2_simps)

section \<open>Literal association\<close>

text \<open>
  Claim C2. For the two records \<open>('a1 FETCH {5}', 'hello')\<close> and \<open>'b2 OK'\<close>, six calls of
  \<open>next\<close> on the token source give the tokens \<open>a1\<close>, \<open>FETCH\<close>, \<open>{5}\<close>, \<open>b2\<close>, \<open>OK\<close> in
  that order and then \<open>StopIteration\<close>; \<open>current_literal\<close> read after the third call (the
  one that gave \<open>{5}\<close>) is \<open>hello\<close>, and read after the fourth call (the one that gave
  \<open>b2\<close>) it is \<open>None\<close>. This holds with either token reader.
\<close>

theorem literal_association:
  \<open>fst (pulls (read_token_stream mem) 6
          (TokenSource_init [WithLiteral ''a1 FETCH {5}'' ''hello'', Plain ''b2 OK''])) =
     [Yielded ''a1'', Yielded ''FETCH'', Yielded ''{5}'', Yielded ''b2'', Yielded ''OK'',
      StopIteration]
   \<and> current_literal (snd (pulls (read_token_stream mem) 3
          (TokenSource_init [WithLiteral ''a1 FETCH {5}'' ''hello'', Plain ''b2 OK'']))) =
     Inr (Some ''hello'')
   \<and> current_literal (snd (pulls (read_token_stream mem) 4
          (TokenSource_init [WithLiteral ''a1 FETCH {5}'' ''hello'', Plain ''b2 OK'']))) =
     Inr None
   \<and> fst (pulls read_token_stream2 6
          (TokenSource_init [WithLiteral ''a1 FETCH {5}'' ''hello'', Plain ''b2 OK''])) =
     [Yielded ''a1'', Yielded ''FETCH'', Yielded ''{5}'', Yielded ''b2'', Yielded ''OK'',
      StopIteration]
   \<and> current_literal (snd (pulls read_token_stream2 3
          (TokenSource_init [WithLiteral ''a1 FETCH {5}'' ''hello'', Plain ''b2 OK'']))) =
     Inr (Some ''hello'')
   \<and> current_literal (snd (pulls read_token_stream2 4
          (TokenSource_init [WithLiteral ''a1 FETCH {5}'' ''hello'', Plain ''b2 OK'']))) =
     Inr None\<close>
  by (simp add: pulls_numeral lexer_simps read_a1_FETCH read_b2_OK read2_a1_FETCH read2_b2_OK)

section \<open>Reading the current literal\<close>

text \<open>
  Claim C3, as amended. A record is current exactly after at least one \<open>next\<close> on a record
  sequence that is not empty and whose first record can be wrapped. From then on, at every
  point of consumption, also after the token stream is exhausted or has raised, the
  current source is the wrapper of one of the given records and \<open>current_literal\<close> returns
  the literal of that source: the literal of the record if it carries one, \<open>None\<close> if it
  is plain. In every other case (before the first \<open>next\<close>, for an empty sequence, for a
  malformed first record) \<open>current_source\<close> is still \<open>None\<close> and \<open>current_literal\<close>
  raises \<open>AttributeError\<close>.
\<close>

theorem current_literal_of_current_source:
  "(0 < n \<and> (\<exists>r rs source. text = r # rs \<and> LiteralHandlingIter_init r = Inr source) \<longrightarrow>
      (\<exists>r \<in> set text. \<exists>source.
          LiteralHandlingIter_init r = Inr source \<and>
          current_source (lex (snd (pulls reader n (TokenSource_init text)))) = Some source \<and>
          current_literal (snd (pulls reader n (TokenSource_init text))) = Inr (literal source) \<and>
          literal source = (case r of Plain t \<Rightarrow> None | WithLiteral t lit \<Rightarrow> Some lit)))
   \<and> (\<not> (0 < n \<and> (\<exists>r rs source. text = r # rs \<and> LiteralHandlingIter_init r = Inr source)) \<longrightarrow>
      current_source (lex (snd (pulls reader n (TokenSource_init text)))) = None \<and>
      current_literal (snd (pulls reader n (TokenSource_init text))) =
        Inl (AttributeError ''literal''))"
proof (intro conjI impI)
  let ?ts = "snd (pulls reader n (TokenSource_init text))"
  assume "0 < n \<and> (\<exists>r rs source. text = r # rs \<and> LiteralHandlingIter_init r = Inr source)"
  then have "current_source (lex ?ts) \<noteq> None"
    using pulls_init_current_iff [of reader n "text"] by simp
  then obtain source where cur: "current_source (lex ?ts) = Some source" by auto
  then obtain r where r: "r \<in> set text" "LiteralHandlingIter_init r = Inr source"
    using pulls_init_origin [of reader n "text" source] by auto
  have "current_literal ?ts = Inr (literal source)"
    using cur by (simp add: current_literal_def)
  moreover have "literal source = (case r of Plain t \<Rightarrow> None | WithLiteral t lit \<Rightarrow> Some lit)"
    using r(2) by (rule LiteralHandlingIter_init_literal)
  ultimately show "\<exists>r \<in> set text. \<exists>source.
          LiteralHandlingIter_init r = Inr source \<and>
          current_source (lex ?ts) = Some source \<and>
          current_literal ?ts = Inr (literal source) \<and>
          literal source = (case r of Plain t \<Rightarrow> None | WithLiteral t lit \<Rightarrow> Some lit)"
    using cur r by blast
next
  let ?ts = "snd (pulls reader n (TokenSource_init text))"
  assume "\<not> (0 < n \<and> (\<exists>r rs source. text = r # rs \<and> LiteralHandlingIter_init r = Inr source))"
  then have none: "current_source (lex ?ts) = None"
    using pulls_init_current_iff [of reader n "text"] by blast
  then show "current_source (lex ?ts) = None" .
  from none show "current_literal ?ts = Inl (AttributeError ''literal'')"
    by (simp add: current_literal_def)
qed

theorem current_literal_of_current_source_witness:
  \<open>(\<exists>r \<in> set [WithLiteral ''a1 FETCH {5}'' ''hello'', Plain ''b2 OK'']. \<exists>source.
      LiteralHandlingIter_init r = Inr source \<and>
      current_source (lex (snd (pulls read_token_stream2 3
        (TokenSource_init [WithLiteral ''a1 FETCH {5}'' ''hello'', Plain ''b2 OK''])))) =
        Some source \<and>
      current_literal (snd (pulls read_token_stream2 3
        (TokenSource_init [WithLiteral ''a1 FETCH {5}'' ''hello'', Plain ''b2 OK'']))) =
        Inr (literal source) \<and>
      literal source = (case r of Plain t \<Rightarrow> None | WithLiteral t lit \<Rightarrow> Some lit))
   \<and> current_literal (snd (pulls read_token_stream2 3 (TokenSource_init []))) =
       Inl (AttributeError ''literal'')
   \<and> current_literal (snd (pulls read_token_stream2 3
        (TokenSource_init [WithLiteral ''a1 FETCH'' ''hello'', Plain ''b2 OK'']))) =
       Inl (AttributeError ''literal'')\<close>
proof -
  have ok: \<open>LiteralHandlingIter_init (WithLiteral ''a1 FETCH {5}'' ''hello'') =
      Inr \<lparr>src_text = ''a1 FETCH {5}'', literal = Some ''hello''\<rparr>\<close>
    by (simp add: LiteralHandlingIter_init_def assert_imap_protocol_def endswith_def)
  have bad: \<open>LiteralHandlingIter_init (WithLiteral ''a1 FETCH'' ''hello'') =
      Inl (ProtocolError (Some ''a1 FETCH''))\<close>
    by (simp add: LiteralHandlingIter_init_def assert_imap_protocol_def endswith_def)
  have c1: \<open>0 < (3::nat) \<and> (\<exists>r rs source.
      [WithLiteral ''a1 FETCH {5}'' ''hello'', Plain ''b2 OK''] = r # rs \<and>
      LiteralHandlingIter_init r = Inr source)\<close>
    using ok by simp
  have c2: \<open>\<not> (0 < (3::nat) \<and> (\<exists>r rs source.
      ([] :: resp_record list) = r # rs \<and> LiteralHandlingIter_init r = Inr source))\<close>
    by simp
  have c3: \<open>\<not> (0 < (3::nat) \<and> (\<exists>r rs source.
      [WithLiteral ''a1 FETCH'' ''hello'', Plain ''b2 OK''] = r # rs \<and>
      LiteralHandlingIter_init r = Inr source))\<close>
    using bad by simp
  show ?thesis
    using
      current_literal_of_current_source [of 3
        \<open>[WithLiteral ''a1 FETCH {5}'' ''hello'', Plain ''b2 OK'']\<close> read_token_stream2]
      current_literal_of_current_source [of 3
        \<open>[]\<close> read_token_stream2]
      current_literal_of_current_source [of 3
        \<open>[WithLiteral ''a1 FETCH'' ''hello'', Plain ''b2 OK'']\<close> read_token_stream2]
      c1 c2 c3
    by blast
qed

text \<open>
  The claim as stated fails before the first token is pulled: no record is current yet.
\<close>

theorem current_literal_before_first_pull:
  \<open>current_literal (snd (pulls (read_token_stream example_memory) 0
      (TokenSource_init [WithLiteral ''a1 FETCH {5}'' ''hello'', Plain ''b2 OK'']))) =
   Inl (AttributeError ''literal'')
   \<and> current_literal (snd (pulls read_token_stream2 0
      (TokenSource_init [WithLiteral ''a1 FETCH {5}'' ''hello'', Plain ''b2 OK'']))) =
   Inl (AttributeError ''literal'')\<close>
  by (simp add: lexer_simps)

section \<open>The two token readers compared\<close>

text \<open>
  Claim C4. On the one-record input \<^verbatim>\<open>"\xc8"\<close> (a double quote, the byte \<open>0xC8\<close>, a double
  quote) the two \<open>read_token_stream\<close> implementations differ: in the table-driven reader
  \<open>o\<close> is \<open>-56\<close> and \<open>token.append(o)\<close> raises \<open>ValueError\<close>, while the set-membership
  reader yields the text as one token; so do the two token sources built on them. On a
  text made of bytes below \<open>0x80\<close> the two readers yield the same tokens, and one ends
  with an exception exactly when the other does.
\<close>

theorem readers_differ_on_high_byte:
  \<open>read_token_stream mem [CHR 0x22, CHR 0xC8, CHR 0x22] =
     ([], Some (ValueError ''byte must be in range(0, 256)''))
   \<and> read_token_stream2 [CHR 0x22, CHR 0xC8, CHR 0x22] =
     ([[CHR 0x22, CHR 0xC8, CHR 0x22]], None)
   \<and> fst (pulls (read_token_stream mem) 2
        (TokenSource_init [Plain [CHR 0x22, CHR 0xC8, CHR 0x22]])) =
     [Raised (ValueError ''byte must be in range(0, 256)''), StopIteration]
   \<and> fst (pulls read_token_stream2 2
        (TokenSource_init [Plain [CHR 0x22, CHR 0xC8, CHR 0x22]])) =
     [Yielded [CHR 0x22, CHR 0xC8, CHR 0x22], StopIteration]
   \<and> ((\<forall>c \<in> set s. ord c < 128) \<longrightarrow>
        fst (read_token_stream2 s) = fst (read_token_stream mem s) \<and>
        (snd (read_token_stream2 s) = None \<longleftrightarrow> snd (read_token_stream mem s) = None))\<close>
proof (intro conjI impI)
  show \<open>read_token_stream mem [CHR 0x22, CHR 0xC8, CHR 0x22] =
     ([], Some (ValueError ''byte must be in range(0, 256)''))\<close>
    by (rule read_quoted_high_byte)
  show \<open>read_token_stream2 [CHR 0x22, CHR 0xC8, CHR 0x22] =
     ([[CHR 0x22, CHR 0xC8, CHR 0x22]], None)\<close>
    by (rule read2_quoted_high_byte)
  show \<open>fst (pulls (read_token_stream mem) 2
        (TokenSource_init [Plain [CHR 0x22, CHR 0xC8, CHR 0x22]])) =
     [Raised (ValueError ''byte must be in range(0, 256)''), StopIteration]\<close>
    by (simp add: pulls_numeral lexer_simps read_quoted_high_byte)
  show \<open>fst (pulls read_token_stream2 2
        (TokenSource_init [Plain [CHR 0x22, CHR 0xC8, CHR 0x22]])) =
     [Yielded [CHR 0x22, CHR 0xC8, CHR 0x22], StopIteration]\<close>
    by (simp add: pulls_numeral lexer_simps read2_quoted_high_byte)
next
  assume low: "\<forall>c \<in> set s. ord c < 128"
  then show "fst (read_token_stream2 s) = fst (read_token_stream mem s)"
    using read_token_stream_eq [of s mem] by (simp add: stream_result2_def)
  from low show "snd (read_token_stream2 s) = None \<longleftrightarrow> snd (read_token_stream mem s) = None"
    using read_token_stream_eq [of s mem] by (simp add: stream_result2_def)
qed

theorem readers_differ_on_high_byte_witness:
  \<open>fst (read_token_stream2 ''x "y"'') = fst (read_token_stream example_memory ''x "y"'')
   \<and> (snd (read_token_stream2 ''x "y"'') = None \<longleftrightarrow>
      snd (read_token_stream example_memory ''x "y"'') = None)
   \<and> fst (read_token_stream2 ''x"y"'') = fst (read_token_stream example_memory ''x"y"'')
   \<and> (snd (read_token_stream2 ''x"y"'') = None \<longleftrightarrow>
      snd (read_token_stream example_memory ''x"y"'') = None)\<close>
proof -
  have low: \<open>\<forall>c \<in> set ''x "y"''. ord c < 128\<close> \<open>\<forall>c \<in> set ''x"y"''. ord c < 128\<close>
    by (simp_all add: ord_def)
  show ?thesis
    using readers_differ_on_high_byte [of example_memory \<open>''x "y"''\<close>]
      readers_differ_on_high_byte [of example_memory \<open>''x"y"''\<close>] low
    by blast
qed

section \<open>Escapes in quoted strings\<close>

text \<open>
  Claim C5. In the quote loop a backslash followed by a backslash or a double quote adds
  only that following byte to the token and moves the cursor past both; a backslash
  followed by any other byte is added itself and the following byte is read by the next
  round of the loop. The scan loop enters the quote loop with a token that holds the
  opening quote, and a token returned by the quote loop ends with the closing quote. The
  input \<^verbatim>\<open>"ab\"cd\\ef"\<close> yields the one token \<^verbatim>\<open>"ab"cd\ef"\<close>.
\<close>

theorem quoted_string_escapes:
  \<open>(ptr + 1 < length s \<and> s ! ptr = BACKSLASH_CHR \<longrightarrow>
      quote_loop s token ptr =
        (if s ! (ptr + 1) = BACKSLASH_CHR \<or> s ! (ptr + 1) = DOUBLE_QUOTE_CHR
         then quote_loop s (token @ [s ! (ptr + 1)]) (ptr + 2)
         else quote_loop s (token @ [BACKSLASH_CHR]) (ptr + 1)) \<and>
      quote_loop2 s token ptr =
        (if s ! (ptr + 1) = BACKSLASH_CHR \<or> s ! (ptr + 1) = DOUBLE_QUOTE_CHR
         then quote_loop2 s (token @ [s ! (ptr + 1)]) (ptr + 2)
         else quote_loop2 s (token @ [BACKSLASH_CHR]) (ptr + 1)))
   \<and> (ptr < length s \<and> s ! ptr = DOUBLE_QUOTE_CHR \<and> to \<le> fr \<longrightarrow>
      scan_loop mem s fr to ptr =
        (case quote_loop s [DOUBLE_QUOTE_CHR] (ptr + 1) of
           Inl e \<Rightarrow> ([], Inl e) | Inr (tok, p) \<Rightarrow> ([tok], Inr p)) \<and>
      scan_loop2 s [] ptr =
        (case quote_loop2 s [DOUBLE_QUOTE_CHR] (ptr + 1) of
           Inl e \<Rightarrow> ([], Inl e) | Inr (tok, p) \<Rightarrow> ([tok], Inr p)))
   \<and> (quote_loop s token ptr = Inr (tok, p) \<or> quote_loop2 s token ptr = Inr (tok, p) \<longrightarrow>
      (\<exists>body. tok = token @ body @ [DOUBLE_QUOTE_CHR]))
   \<and> read_token_stream mem
        [CHR 0x22, CHR ''a'', CHR ''b'', CHR 0x5C, CHR 0x22, CHR ''c'', CHR ''d'', CHR 0x5C,
         CHR 0x5C, CHR ''e'', CHR ''f'', CHR 0x22] =
      ([[CHR 0x22, CHR ''a'', CHR ''b'', CHR 0x22, CHR ''c'', CHR ''d'', CHR 0x5C, CHR ''e'',
         CHR ''f'', CHR 0x22]], None)
   \<and> read_token_stream2
        [CHR 0x22, CHR ''a'', CHR ''b'', CHR 0x5C, CHR 0x22, CHR ''c'', CHR ''d'', CHR 0x5C,
         CHR 0x5C, CHR ''e'', CHR ''f'', CHR 0x22] =
      ([[CHR 0x22, CHR ''a'', CHR ''b'', CHR 0x22, CHR ''c'', CHR ''d'', CHR 0x5C, CHR ''e'',
         CHR ''f'', CHR 0x22]], None)\<close>
proof (intro conjI impI)
  assume a: "ptr + 1 < length s \<and> s ! ptr = BACKSLASH_CHR"
  then show "quote_loop s token ptr =
        (if s ! (ptr + 1) = BACKSLASH_CHR \<or> s ! (ptr + 1) = DOUBLE_QUOTE_CHR
         then quote_loop s (token @ [s ! (ptr + 1)]) (ptr + 2)
         else quote_loop s (token @ [BACKSLASH_CHR]) (ptr + 1))"
    using quote_loop_escape [of ptr s token] quote_loop_lone_backslash [of ptr s token]
    by auto
  from a show "quote_loop2 s token ptr =
        (if s ! (ptr + 1) = BACKSLASH_CHR \<or> s ! (ptr + 1) = DOUBLE_QUOTE_CHR
         then quote_loop2 s (token @ [s ! (ptr + 1)]) (ptr + 2)
         else quote_loop2 s (token @ [BACKSLASH_CHR]) (ptr + 1))"
    using quote_loop2_escape [of ptr s token] quote_loop2_lone_backslash [of ptr s token]
    by auto
next
  assume a: "ptr < length s \<and> s ! ptr = DOUBLE_QUOTE_CHR \<and> to \<le> fr"
  then show "scan_loop mem s fr to ptr =
        (case quote_loop s [DOUBLE_QUOTE_CHR] (ptr + 1) of
           Inl e \<Rightarrow> ([], Inl e) | Inr (tok, p) \<Rightarrow> ([tok], Inr p))"
    by (simp add: scan_loop_quote)
  from a show "scan_loop2 s [] ptr =
        (case quote_loop2 s [DOUBLE_QUOTE_CHR] (ptr + 1) of
           Inl e \<Rightarrow> ([], Inl e) | Inr (tok, p) \<Rightarrow> ([tok], Inr p))"
    by (simp add: scan_loop2_quote)
next
  assume "quote_loop s token ptr = Inr (tok, p) \<or> quote_loop2 s token ptr = Inr (tok, p)"
  then show "\<exists>body. tok = token @ body @ [DOUBLE_QUOTE_CHR]"
    using quote_loop_token [of s token ptr tok p] quote_loop2_token [of s token ptr tok p]
    by blast
next
  show \<open>read_token_stream mem
        [CHR 0x22, CHR ''a'', CHR ''b'', CHR 0x5C, CHR 0x22, CHR ''c'', CHR ''d'', CHR 0x5C,
         CHR 0x5C, CHR ''e'', CHR ''f'', CHR 0x22] =
      ([[CHR 0x22, CHR ''a'', CHR ''b'', CHR 0x22, CHR ''c'', CHR ''d'', CHR 0x5C, CHR ''e'',
         CHR ''f'', CHR 0x22]], None)\<close>
    by (simp add: run_simps)
  show \<open>read_token_stream2
        [CHR 0x22, CHR ''a'', CHR ''b'', CHR 0x5C, CHR 0x22, CHR ''c'', CHR ''d'', CHR 0x5C,
         CHR 0x5C, CHR ''e'', CHR ''f'', CHR 0x22] =
      ([[CHR 0x22, CHR ''a'', CHR ''b'', CHR 0x22, CHR ''c'', CHR ''d'', CHR 0x5C, CHR ''e'',
         CHR ''f'', CHR 0x22]], None)\<close>
    by (simp add: run2_simps)
qed

theorem quoted_string_escapes_witness:
  \<open>quote_loop [CHR 0x22, CHR ''a'', CHR 0x5C, CHR 0x22, CHR 0x5C, CHR ''n'', CHR 0x22]
      [CHR 0x22, CHR ''a''] 2 =
    quote_loop [CHR 0x22, CHR ''a'', CHR 0x5C, CHR 0x22, CHR 0x5C, CHR ''n'', CHR 0x22]
      [CHR 0x22, CHR ''a'', CHR 0x22] 4
   \<and> quote_loop [CHR 0x22, CHR ''a'', CHR 0x5C, CHR 0x22, CHR 0x5C, CHR ''n'', CHR 0x22]
      [CHR 0x22, CHR ''a'', CHR 0x22] 4 =
    quote_loop [CHR 0x22, CHR ''a'', CHR 0x5C, CHR 0x22, CHR 0x5C, CHR ''n'', CHR 0x22]
      [CHR 0x22, CHR ''a'', CHR 0x22, CHR 0x5C] 5
   \<and> scan_loop example_memory
      [CHR 0x22, CHR ''a'', CHR 0x5C, CHR 0x22, CHR 0x5C, CHR ''n'', CHR 0x22] 0 0 0 =
    ([[CHR 0x22, CHR ''a'', CHR 0x22, CHR 0x5C, CHR ''n'', CHR 0x22]], Inr 7)\<close>
  using
    quoted_string_escapes [where ptr = 2 and token = \<open>[CHR 0x22, CHR ''a'']\<close> and fr = 0 and to = 0
      and mem = example_memory
      and s = \<open>[CHR 0x22, CHR ''a'', CHR 0x5C, CHR 0x22, CHR 0x5C, CHR ''n'', CHR 0x22]\<close>]
    quoted_string_escapes [where ptr = 4 and token = \<open>[CHR 0x22, CHR ''a'', CHR 0x22]\<close>
      and fr = 0 and to = 0 and mem = example_memory
      and s = \<open>[CHR 0x22, CHR ''a'', CHR 0x5C, CHR 0x22, CHR 0x5C, CHR ''n'', CHR 0x22]\<close>]
    quoted_string_escapes [where ptr = 0 and token = \<open>[]\<close> and fr = 0 and to = 0
      and mem = example_memory
      and s = \<open>[CHR 0x22, CHR ''a'', CHR 0x5C, CHR 0x22, CHR 0x5C, CHR ''n'', CHR 0x22]\<close>]
  by (simp add: run_simps BACKSLASH_CHR_def)

section \<open>Unterminated quoted strings\<close>

text \<open>
  Claim C6. In the table-driven reader a byte of \<open>0x80\<close> or more inside a quoted string
  makes \<open>token.append(o)\<close> raise \<open>ValueError('byte must be in range(0, 256)')\<close>: the quote
  loop fails on \<^verbatim>\<open>"\xc8"\<close> although an unescaped closing quote follows, and on \<^verbatim>\<open>"\xc8\<close> it
  fails with that error and not with the one for a missing closing quote. The
  set-membership reader yields the first text as one token and reports the missing quote
  of the second. Its quote loop, started at \<open>ptr\<close>, fails exactly when the text holds no
  unescaped double quote from \<open>ptr\<close> on, and then always with the \<open>ValueError\<close> for a
  missing closing quote (the spec's \<open>UnterminatedQuote\<close>); so does the quote loop of the
  table-driven reader on a text made of bytes below \<open>0x80\<close>. Both quote loops fail with
  that error when they reach a backslash that is the last byte of the text, whether that
  backslash stands alone or is the second of an escaped pair.
\<close>

theorem unterminated_quote_high_byte:
  \<open>quote_loop [CHR 0x22, CHR 0xC8, CHR 0x22] [CHR 0x22] 1 =
     Inl (ValueError ''byte must be in range(0, 256)'')
   \<and> unescaped_quote [CHR 0x22, CHR 0xC8, CHR 0x22] 1 2
   \<and> read_token_stream mem [CHR 0x22, CHR 0xC8, CHR 0x22] =
     ([], Some (ValueError ''byte must be in range(0, 256)''))
   \<and> read_token_stream mem [CHR 0x22, CHR 0xC8] =
     ([], Some (ValueError ''byte must be in range(0, 256)''))
   \<and> read_token_stream2 [CHR 0x22, CHR 0xC8, CHR 0x22] =
     ([[CHR 0x22, CHR 0xC8, CHR 0x22]], None)
   \<and> read_token_stream2 [CHR 0x22, CHR 0xC8] =
     ([], Some (ValueError (no_closing DOUBLE_QUOTE_CHR)))
   \<and> (quote_loop2 s token ptr = Inl e \<longleftrightarrow>
      e = ValueError (no_closing DOUBLE_QUOTE_CHR) \<and> \<not> (\<exists>i. unescaped_quote s ptr i))
   \<and> ((\<forall>c \<in> set s. ord c < 128) \<longrightarrow>
      (quote_loop s token ptr = Inl e \<longleftrightarrow>
       e = ValueError (no_closing DOUBLE_QUOTE_CHR) \<and> \<not> (\<exists>i. unescaped_quote s ptr i)))
   \<and> (ptr + 1 = length s \<and> s ! ptr = BACKSLASH_CHR \<longrightarrow>
      quote_loop s token ptr = Inl (ValueError (no_closing DOUBLE_QUOTE_CHR)) \<and>
      quote_loop2 s token ptr = Inl (ValueError (no_closing DOUBLE_QUOTE_CHR)))
   \<and> (ptr + 2 = length s \<and> s ! ptr = BACKSLASH_CHR \<and> s ! (ptr + 1) = BACKSLASH_CHR \<longrightarrow>
      quote_loop s token ptr = Inl (ValueError (no_closing DOUBLE_QUOTE_CHR)) \<and>
      quote_loop2 s token ptr = Inl (ValueError (no_closing DOUBLE_QUOTE_CHR)))\<close>
proof -
  have high: \<open>quote_loop [CHR 0x22, CHR 0xC8, CHR 0x22] [CHR 0x22] 1 =
     Inl (ValueError ''byte must be in range(0, 256)'')\<close>
    by (simp add: run_simps)
  have closing: \<open>unescaped_quote [CHR 0x22, CHR 0xC8, CHR 0x22] 1 2\<close>
    by (simp add: unescaped_quote_def DOUBLE_QUOTE_CHR_def BACKSLASH_CHR_def numeral_2_eq_2)
  have ex1: \<open>read_token_stream mem [CHR 0x22, CHR 0xC8] =
     ([], Some (ValueError ''byte must be in range(0, 256)''))\<close>
    by (simp add: run_simps)
  have ex2: \<open>read_token_stream2 [CHR 0x22, CHR 0xC8] =
     ([], Some (ValueError (no_closing DOUBLE_QUOTE_CHR)))\<close>
    by (simp add: run2_simps)
  have iff2: "quote_loop2 s token ptr = Inl e \<longleftrightarrow>
      e = ValueError (no_closing DOUBLE_QUOTE_CHR) \<and> \<not> (\<exists>i. unescaped_quote s ptr i)"
    using quote_loop2_fails_iff [of s token ptr] quote_loop2_error [of s token ptr]
    by (metis (full_types))
  have iff1: "quote_loop s token ptr = Inl e \<longleftrightarrow>
      e = ValueError (no_closing DOUBLE_QUOTE_CHR) \<and> \<not> (\<exists>i. unescaped_quote s ptr i)"
    if "\<forall>c \<in> set s. ord c < 128"
    using iff2 quote_loop_eq [OF that, of token ptr] by simp
  have trail: "quote_loop s token ptr = Inl (ValueError (no_closing DOUBLE_QUOTE_CHR)) \<and>
      quote_loop2 s token ptr = Inl (ValueError (no_closing DOUBLE_QUOTE_CHR))"
    if "ptr + 1 = length s \<and> s ! ptr = BACKSLASH_CHR"
    using that quote_loop_trailing_backslash [of ptr s token]
      quote_loop2_trailing_backslash [of ptr s token] by simp
  have pair: "quote_loop s token ptr = Inl (ValueError (no_closing DOUBLE_QUOTE_CHR)) \<and>
      quote_loop2 s token ptr = Inl (ValueError (no_closing DOUBLE_QUOTE_CHR))"
    if a: "ptr + 2 = length s \<and> s ! ptr = BACKSLASH_CHR \<and> s ! (ptr + 1) = BACKSLASH_CHR"
  proof -
    have "quote_loop s token ptr = quote_loop s (token @ [s ! (ptr + 1)]) (ptr + 2)"
      using a by (intro quote_loop_escape) auto
    moreover have "quote_loop2 s token ptr = quote_loop2 s (token @ [s ! (ptr + 1)]) (ptr + 2)"
      using a by (intro quote_loop2_escape) auto
    ultimately show ?thesis using a by (simp add: quote_loop_end quote_loop2_end)
  qed
  show ?thesis
    using high closing read_quoted_high_byte [of mem] ex1 read2_quoted_high_byte ex2
      iff2 iff1 trail pair
    by blast
qed

theorem unterminated_quote_high_byte_witness:
  \<open>quote_loop2 [CHR 0x22, CHR ''a'', CHR 0x5C, CHR 0x22] [CHR 0x22] 1 =
     Inl (ValueError (no_closing DOUBLE_QUOTE_CHR))
   \<and> quote_loop [CHR 0x22, CHR ''a'', CHR 0x5C, CHR 0x22] [CHR 0x22] 1 =
     Inl (ValueError (no_closing DOUBLE_QUOTE_CHR))
   \<and> \<not> unescaped_quote [CHR 0x22, CHR ''a'', CHR 0x5C, CHR 0x22] 1 3
   \<and> quote_loop [CHR 0x22, CHR ''a'', CHR 0x5C] [CHR 0x22, CHR ''a''] 2 =
     Inl (ValueError (no_closing DOUBLE_QUOTE_CHR))
   \<and> quote_loop2 [CHR 0x22, CHR ''a'', CHR 0x5C] [CHR 0x22, CHR ''a''] 2 =
     Inl (ValueError (no_closing DOUBLE_QUOTE_CHR))
   \<and> quote_loop [CHR 0x22, CHR 0x5C, CHR 0x5C] [CHR 0x22] 1 =
     Inl (ValueError (no_closing DOUBLE_QUOTE_CHR))
   \<and> quote_loop2 [CHR 0x22, CHR 0x5C, CHR 0x5C] [CHR 0x22] 1 =
     Inl (ValueError (no_closing DOUBLE_QUOTE_CHR))\<close>
proof -
  have r: \<open>quote_loop2 [CHR 0x22, CHR ''a'', CHR 0x5C, CHR 0x22] [CHR 0x22] 1 =
     Inl (ValueError (no_closing DOUBLE_QUOTE_CHR))\<close>
    by (simp add: run2_simps)
  have low: \<open>\<forall>c \<in> set [CHR 0x22, CHR ''a'', CHR 0x5C, CHR 0x22]. ord c < 128\<close>
    by (simp add: ord_def)
  have q1: \<open>quote_loop [CHR 0x22, CHR ''a'', CHR 0x5C, CHR 0x22] [CHR 0x22] 1 =
     Inl (ValueError (no_closing DOUBLE_QUOTE_CHR))\<close>
    and q2: \<open>\<not> unescaped_quote [CHR 0x22, CHR ''a'', CHR 0x5C, CHR 0x22] 1 3\<close>
    using r low
      unterminated_quote_high_byte [where s = \<open>[CHR 0x22, CHR ''a'', CHR 0x5C, CHR 0x22]\<close>
        and token = \<open>[CHR 0x22]\<close> and ptr = 1
        and e = "ValueError (no_closing DOUBLE_QUOTE_CHR)" and mem = example_memory]
    by blast+
  have q3: \<open>quote_loop [CHR 0x22, CHR ''a'', CHR 0x5C] [CHR 0x22, CHR ''a''] 2 =
     Inl (ValueError (no_closing DOUBLE_QUOTE_CHR)) \<and>
     quote_loop2 [CHR 0x22, CHR ''a'', CHR 0x5C] [CHR 0x22, CHR ''a''] 2 =
     Inl (ValueError (no_closing DOUBLE_QUOTE_CHR))\<close>
    using unterminated_quote_high_byte [where s = \<open>[CHR 0x22, CHR ''a'', CHR 0x5C]\<close>
        and token = \<open>[CHR 0x22, CHR ''a'']\<close> and ptr = 2 and mem = example_memory]
    by (simp add: BACKSLASH_CHR_def)
  have q4: \<open>quote_loop [CHR 0x22, CHR 0x5C, CHR 0x5C] [CHR 0x22] 1 =
     Inl (ValueError (no_closing DOUBLE_QUOTE_CHR)) \<and>
     quote_loop2 [CHR 0x22, CHR 0x5C, CHR 0x5C] [CHR 0x22] 1 =
     Inl (ValueError (no_closing DOUBLE_QUOTE_CHR))\<close>
    using unterminated_quote_high_byte [where s = \<open>[CHR 0x22, CHR 0x5C, CHR 0x5C]\<close>
        and token = \<open>[CHR 0x22]\<close> and ptr = 1 and mem = example_memory]
    by (simp add: BACKSLASH_CHR_def)
  show ?thesis using r q1 q2 q3 q4 by blast
qed

section \<open>Bracketed groups\<close>

text \<open>
  Claim C7. When the scan loop reads \<open>[\<close> at \<open>ptr\<close> and no \<open>]\<close> follows, it raises the
  \<open>ValueError\<close> for a missing closing bracket (the spec's \<open>UnterminatedBracket\<close>). When
  \<open>i\<close> is the index of the first \<open>]\<close> behind \<open>ptr\<close>, the loop goes on behind \<open>i\<close> with the
  pending token extended through \<open>i\<close>: the region \<open>[fr, i + 1)\<close> in the table-driven
  reader, the bytes \<open>src_text[ptr : i + 1]\<close> appended in the set-membership reader. Nothing
  between the brackets is inspected, and the first \<open>]\<close> ends the group even when another
  \<open>[\<close> came before it.
\<close>

theorem bracket_group:
  \<open>(ptr < length s \<and> s ! ptr = OPEN_SQUARE_CHR \<and> CLOSE_SQUARE_CHR \<notin> set (drop (ptr + 1) s) \<longrightarrow>
      scan_loop mem s fr to ptr = ([], Inl (ValueError (no_closing CLOSE_SQUARE_CHR))) \<and>
      scan_loop2 s token ptr = ([], Inl (ValueError (no_closing CLOSE_SQUARE_CHR))))
   \<and> (ptr < length s \<and> s ! ptr = OPEN_SQUARE_CHR \<and> ptr < i \<and> i < length s \<and>
       s ! i = CLOSE_SQUARE_CHR \<and> CLOSE_SQUARE_CHR \<notin> set (slice s (ptr + 1) i) \<longrightarrow>
      scan_loop mem s fr to ptr = scan_loop mem s fr (i + 1) (i + 1) \<and>
      scan_loop2 s token ptr = scan_loop2 s (token @ slice s ptr (i + 1)) (i + 1))
   \<and> read_token_stream mem ''[abc'' = ([], Some (ValueError (no_closing CLOSE_SQUARE_CHR)))
   \<and> read_token_stream2 ''[abc'' = ([], Some (ValueError (no_closing CLOSE_SQUARE_CHR)))
   \<and> read_token_stream mem ''[1 2 3]'' = ([''[1 2 3]''], None)
   \<and> read_token_stream2 ''[1 2 3]'' = ([''[1 2 3]''], None)
   \<and> read_token_stream mem ''[a [b] c]'' = ([''[a [b]'', ''c]''], None)
   \<and> read_token_stream2 ''[a [b] c]'' = ([''[a [b]'', ''c]''], None)\<close>
proof (intro conjI impI)
  assume a: "ptr < length s \<and> s ! ptr = OPEN_SQUARE_CHR \<and>
    CLOSE_SQUARE_CHR \<notin> set (drop (ptr + 1) s)"
  then have "bytes_find s CLOSE_SQUARE_CHR (ptr + 1) = - 1" by (simp add: bytes_find_absent)
  then show "scan_loop mem s fr to ptr = ([], Inl (ValueError (no_closing CLOSE_SQUARE_CHR)))"
    and "scan_loop2 s token ptr = ([], Inl (ValueError (no_closing CLOSE_SQUARE_CHR)))"
    using a by (simp_all add: scan_loop_bracket_fail scan_loop2_bracket_fail)
next
  assume a: "ptr < length s \<and> s ! ptr = OPEN_SQUARE_CHR \<and> ptr < i \<and> i < length s \<and>
       s ! i = CLOSE_SQUARE_CHR \<and> CLOSE_SQUARE_CHR \<notin> set (slice s (ptr + 1) i)"
  then have "bytes_find s CLOSE_SQUARE_CHR (ptr + 1) = int i"
    by (intro bytes_find_at) auto
  then show "scan_loop mem s fr to ptr = scan_loop mem s fr (i + 1) (i + 1)"
    and "scan_loop2 s token ptr = scan_loop2 s (token @ slice s ptr (i + 1)) (i + 1)"
    using a by (simp_all add: scan_loop_bracket scan_loop2_bracket)
qed (simp_all add: run_simps run2_simps)

theorem bracket_group_witness:
  \<open>scan_loop example_memory ''x[abc'' 0 1 1 =
     ([], Inl (ValueError (no_closing CLOSE_SQUARE_CHR)))
   \<and> scan_loop2 ''x[abc'' ''x'' 1 = ([], Inl (ValueError (no_closing CLOSE_SQUARE_CHR)))
   \<and> scan_loop example_memory ''x[1 2] y'' 0 1 1 = scan_loop example_memory ''x[1 2] y'' 0 6 6
   \<and> scan_loop2 ''x[1 2] y'' ''x'' 1 = scan_loop2 ''x[1 2] y'' ''x[1 2]'' 6\<close>
  using bracket_group [where ptr = 1 and s = \<open>''x[abc''\<close> and fr = 0 and to = 1
      and token = \<open>''x''\<close> and mem = example_memory]
    bracket_group [where ptr = 1 and s = \<open>''x[1 2] y''\<close> and fr = 0 and to = 1
      and token = \<open>''x''\<close> and i = 5 and mem = example_memory]
  by (simp add: chr_consts slice_def)

section \<open>A quote inside a pending token\<close>

text \<open>
  Claim C8. When the scan loop reads a double quote while the pending token is not empty
  it raises: \<open>ValueError('')\<close> in the table-driven reader, the failure of
  \<open>assert_imap_protocol\<close> in the set-membership reader (the spec's \<open>UnexpectedQuote\<close>).
  When the pending token is empty the quote starts a quoted string and that error is not
  raised. The input \<^verbatim>\<open>x"y"\<close> fails in this way, \<^verbatim>\<open>x "y"\<close> does not.
\<close>

theorem unexpected_quote:
  \<open>(ptr < length s \<and> s ! ptr = DOUBLE_QUOTE_CHR \<and> fr < to \<longrightarrow>
      scan_loop mem s fr to ptr = ([], Inl (ValueError '''')))
   \<and> (ptr < length s \<and> s ! ptr = DOUBLE_QUOTE_CHR \<and> token \<noteq> [] \<longrightarrow>
      scan_loop2 s token ptr = ([], Inl (ProtocolError None)))
   \<and> (ptr < length s \<and> s ! ptr = DOUBLE_QUOTE_CHR \<and> to \<le> fr \<longrightarrow>
      snd (scan_loop mem s fr to ptr) \<noteq> Inl (ValueError ''''))
   \<and> (ptr < length s \<and> s ! ptr = DOUBLE_QUOTE_CHR \<longrightarrow>
      snd (scan_loop2 s [] ptr) \<noteq> Inl (ProtocolError None))
   \<and> read_token_stream mem ''x"y"'' = ([], Some (ValueError ''''))
   \<and> read_token_stream2 ''x"y"'' = ([], Some (ProtocolError None))
   \<and> read_token_stream mem ''x "y"'' = ([''x'', ''"y"''], None)
   \<and> read_token_stream2 ''x "y"'' = ([''x'', ''"y"''], None)\<close>
proof (intro conjI impI)
  assume "ptr < length s \<and> s ! ptr = DOUBLE_QUOTE_CHR \<and> fr < to"
  then show "scan_loop mem s fr to ptr = ([], Inl (ValueError ''''))"
    by (simp add: scan_loop_quote_pending)
next
  assume "ptr < length s \<and> s ! ptr = DOUBLE_QUOTE_CHR \<and> token \<noteq> []"
  then show "scan_loop2 s token ptr = ([], Inl (ProtocolError None))"
    by (simp add: scan_loop2_quote_pending)
next
  assume "ptr < length s \<and> s ! ptr = DOUBLE_QUOTE_CHR \<and> to \<le> fr"
  then show "snd (scan_loop mem s fr to ptr) \<noteq> Inl (ValueError '''')"
    using quote_loop_error [of s "[DOUBLE_QUOTE_CHR]" "ptr + 1"]
    by (auto simp: scan_loop_quote no_closing_def split: sum.splits)
next
  assume "ptr < length s \<and> s ! ptr = DOUBLE_QUOTE_CHR"
  then show "snd (scan_loop2 s [] ptr) \<noteq> Inl (ProtocolError None)"
    using quote_loop2_error [of s "[DOUBLE_QUOTE_CHR]" "ptr + 1"]
    by (auto simp: scan_loop2_quote split: sum.splits)
qed (simp_all add: run_simps run2_simps)

theorem unexpected_quote_witness:
  \<open>scan_loop example_memory ''x"y"'' 0 1 1 = ([], Inl (ValueError ''''))
   \<and> scan_loop2 ''x"y"'' ''x'' 1 = ([], Inl (ProtocolError None))
   \<and> snd (scan_loop example_memory ''"y"'' 0 0 0) \<noteq> Inl (ValueError '''')
   \<and> snd (scan_loop2 ''"y"'' [] 0) \<noteq> Inl (ProtocolError None)\<close>
  using unexpected_quote [where ptr = 1 and s = \<open>''x"y"''\<close> and fr = 0 and to = 1
      and token = \<open>''x''\<close> and mem = example_memory]
    unexpected_quote [where ptr = 0 and s = \<open>''"y"''\<close> and fr = 0 and to = 0
      and token = \<open>[]\<close> and mem = example_memory]
  by (simp add: chr_consts)

section \<open>Constructing a literal-carrying record\<close>

text \<open>
  Claim C9. Wrapping a record with a literal whose text does not end with the byte \<open>}\<close>
  fails in \<open>assert_imap_protocol\<close> (the spec's \<open>MalformedLiteralRecord\<close>; the text is the
  message); when the text ends with \<open>}\<close> the wrapper is built and exposes the literal. A
  plain record is always wrapped, with no literal.
\<close>

theorem literal_record_construction:
  "LiteralHandlingIter_init (WithLiteral text lit) =
     (if text \<noteq> [] \<and> last text = CHR ''}''
      then Inr \<lparr>src_text = text, literal = Some lit\<rparr>
      else Inl (ProtocolError (Some text)))
   \<and> LiteralHandlingIter_init (Plain text) = Inr \<lparr>src_text = text, literal = None\<rparr>"
  by (simp add: LiteralHandlingIter_init_def assert_imap_protocol_def endswith_close_brace)

theorem literal_record_construction_witness:
  "LiteralHandlingIter_init (WithLiteral ''a1 FETCH {5}'' ''hello'') =
     Inr \<lparr>src_text = ''a1 FETCH {5}'', literal = Some ''hello''\<rparr>
   \<and> LiteralHandlingIter_init (WithLiteral ''a1 FETCH'' ''hello'') =
     Inl (ProtocolError (Some ''a1 FETCH''))
   \<and> LiteralHandlingIter_init (Plain ''b2 OK'') = Inr \<lparr>src_text = ''b2 OK'', literal = None\<rparr>"
  using literal_record_construction [of "''a1 FETCH {5}''" "''hello''"]
    literal_record_construction [of "''a1 FETCH''" "''hello''"]
    literal_record_construction [of "''b2 OK''"]
  by simp

section \<open>Empty tokens\<close>

text \<open>
  Claim C10. On the one-byte text \<open>0xFF\<close> the table-driven reader has \<open>o = -1\<close> and reads
  \<open>WC[-1]\<close> and \<open>WS[-1]\<close>, in front of the tables. When the first read finds zero and the
  second does not, the scan loop takes the whitespace branch at its first byte and yields
  the pending region \<open>src_text[0:0]\<close>: one empty token. The set-membership reader yields
  the byte as a token. Every token that the set-membership reader yields has at least one
  byte, and so has every token that the table-driven reader yields from a text made of
  bytes below \<open>0x80\<close>.
\<close>

theorem empty_token_on_high_byte:
  \<open>(\<not> WC_outside mem (- 1) \<and> WS_outside mem (- 1) \<longrightarrow>
      read_token_stream mem [CHR 0xFF] = ([[]], None))
   \<and> read_token_stream2 [CHR 0xFF] = ([[CHR 0xFF]], None)
   \<and> (\<forall>t \<in> set (fst (read_token_stream2 s)). t \<noteq> [])
   \<and> ((\<forall>c \<in> set s. ord c < 128) \<longrightarrow> (\<forall>t \<in> set (fst (read_token_stream mem s)). t \<noteq> []))\<close>
proof (intro conjI impI)
  assume "\<not> WC_outside mem (- 1) \<and> WS_outside mem (- 1)"
  then show \<open>read_token_stream mem [CHR 0xFF] = ([[]], None)\<close>
    by (simp add: run_simps)
next
  show \<open>read_token_stream2 [CHR 0xFF] = ([[CHR 0xFF]], None)\<close>
    by (simp add: run2_simps)
next
  show nonempty2: "\<forall>t \<in> set (fst (read_token_stream2 s)). t \<noteq> []"
    using read_token_stream_from2_nonempty [of _ s 0]
    by (auto simp: read_token_stream2_def)
  assume "\<forall>c \<in> set s. ord c < 128"
  then have "fst (read_token_stream mem s) = fst (read_token_stream2 s)"
    using read_token_stream_eq [of s mem] by (simp add: stream_result2_def)
  then show "\<forall>t \<in> set (fst (read_token_stream mem s)). t \<noteq> []"
    using nonempty2 by simp
qed

theorem empty_token_on_high_byte_witness:
  \<open>read_token_stream example_memory [CHR 0xFF] = ([[]], None)
   \<and> fst (read_token_stream example_memory '' a  [b c] ("d"'') = [''a'', ''[b c]'', ''('', ''"d"'']
   \<and> fst (read_token_stream2 '' a  [b c] ("d"'') = [''a'', ''[b c]'', ''('', ''"d"'']
   \<and> ''a'' \<noteq> [] \<and> ''[b c]'' \<noteq> [] \<and> ''('' \<noteq> [] \<and> ''"d"'' \<noteq> []\<close>
proof -
  have r: \<open>read_token_stream example_memory '' a  [b c] ("d"'' =
      ([''a'', ''[b c]'', ''('', ''"d"''], None)\<close>
    by (simp add: run_simps)
  have r2: \<open>read_token_stream2 '' a  [b c] ("d"'' = ([''a'', ''[b c]'', ''('', ''"d"''], None)\<close>
    by (simp add: run2_simps)
  have low: \<open>\<forall>c \<in> set '' a  [b c] ("d"''. ord c < 128\<close>
    by (simp add: ord_def)
  have m: "\<not> WC_outside example_memory (- 1) \<and> WS_outside example_memory (- 1)"
    by (simp add: example_memory_def)
  show ?thesis
    using empty_token_on_high_byte [where mem = example_memory and s = \<open>'' a  [b c] ("d"''\<close>]
      low m
    by (simp add: r r2)
qed

end
